theory Spec2Isabelle
  imports Complex_Main "HOL-Library.Word" "HOL-Library.Log_Nat"
begin

section \<open>Python values shared by the two modules\<close>

text \<open>
  The exceptions that the modelled statements of \<^verbatim>\<open>dataset.py\<close> can raise. A function
  that can raise returns \<open>error + 'a\<close>, with \<open>Inl\<close> the exception.
\<close>

datatype error = ZeroDivisionError | OverflowError | AssertionError | IndexError | AttributeError

text \<open>
  \<^verbatim>\<open>a[start:stop]\<close> on the leading axis, with Python's rules for integers of either sign:
  a negative bound counts from the end, and both bounds are clamped to \<open>0 .. len(a)\<close>.
  \<^verbatim>\<open>a[start:]\<close> is the same slice with \<open>stop = len(a)\<close>.
\<close>

definition slice_bound :: "nat \<Rightarrow> int \<Rightarrow> nat" where
  "slice_bound n k = (if k < 0 then nat (max (k + int n) 0) else min (nat k) n)"

definition py_slice :: "'a list \<Rightarrow> int \<Rightarrow> int \<Rightarrow> 'a list" where
  "py_slice a start stop =
     (let lo = slice_bound (length a) start;
          hi = slice_bound (length a) stop
      in take (hi - lo) (drop lo a))"

definition py_slice_from :: "'a list \<Rightarrow> int \<Rightarrow> 'a list" where
  "py_slice_from a start = py_slice a start (int (length a))"

section \<open>Floating-point numbers\<close>

text \<open>
  Python's true division of integers and the \<^verbatim>\<open>float16\<close> arrays of numpy round to the
  nearest number of their format, a tie going to the even significand. A finite
  floating-point number is kept here as the rational number it stands for.
  \<open>round_half_even\<close> is rounding to the nearest integer with ties to even.
\<close>

definition round_half_even :: "rat \<Rightarrow> int" where
  "round_half_even x =
     (let f = \<lfloor>x\<rfloor>; d = x - of_int f
      in if d < 1 / 2 then f else if 1 / 2 < d then f + 1 else if even f then f else f + 1)"

text \<open>
  For \<open>x > 0\<close>, \<open>binade x\<close> is the exponent \<open>e\<close> with \<open>2^e \<le> x < 2^(e+1)\<close>; it is found
  from the bit lengths of the numerator and the denominator of \<open>x\<close>.
\<close>

definition binade :: "rat \<Rightarrow> int" where
  "binade x =
     (let (p, d) = quotient_of x; g = bitlen p - bitlen d
      in if 2 powi g \<le> x then g else g - 1)"

text \<open>
  Rounding to a binary format with \<open>prec\<close> significant bits whose normal numbers start
  at \<open>2^emin\<close>: the result is a multiple of the unit in the last place of the binade of
  \<open>x\<close>, or of the smallest binade below \<open>2^emin\<close> (gradual underflow, down to zero).
  The exponent has no upper bound here; overflow is tested where a format is used.
\<close>

definition round_float :: "nat \<Rightarrow> int \<Rightarrow> rat \<Rightarrow> rat" where
  "round_float prec emin x =
     (if x = 0 then 0
      else
        let e = max (binade \<bar>x\<bar>) emin;
            ulp = 2 powi (e - int prec + 1)
        in sgn x * of_int (round_half_even (\<bar>x\<bar> / ulp)) * ulp)"

definition binary16 :: "rat \<Rightarrow> rat" where "binary16 = round_float 11 (- 14)"

definition binary32 :: "rat \<Rightarrow> rat" where "binary32 = round_float 24 (- 126)"

definition binary64 :: "rat \<Rightarrow> rat" where "binary64 = round_float 53 (- 1022)"

text \<open>
  \<^verbatim>\<open>a / b\<close> for Python integers under \<^verbatim>\<open>from __future__ import division\<close>: the
  \<^verbatim>\<open>binary64\<close> number nearest to the exact quotient. A divisor of \<open>0\<close> raises
  \<^verbatim>\<open>ZeroDivisionError\<close>, and a quotient beyond the range of \<^verbatim>\<open>binary64\<close> raises
  \<^verbatim>\<open>OverflowError\<close>.
\<close>

definition py_true_divide :: "int \<Rightarrow> int \<Rightarrow> error + rat" where
  "py_true_divide a b =
     (if b = 0 then Inl ZeroDivisionError
      else
        let q = binary64 (rat_of_int a / rat_of_int b)
        in if \<bar>q\<bar> < 2 ^ 1024 then Inr q else Inl OverflowError)"

text \<open>
  \<^verbatim>\<open>np.array(faces, dtype=np.float16)\<close> converts every byte to \<^verbatim>\<open>binary16\<close>. numpy
  computes a quotient or a product of \<^verbatim>\<open>float16\<close> operands in single precision and
  rounds that result to \<^verbatim>\<open>binary16\<close>; the Python float \<^verbatim>\<open>255.\<close> enters such an
  operation as the \<^verbatim>\<open>binary16\<close> number \<open>255\<close>. \<open>normalize_byte\<close> is what
  \<^verbatim>\<open>faces / 255.\<close> does to one byte of the array. Bytes are far from the overflow
  threshold of \<^verbatim>\<open>binary16\<close>, and overflow is not modelled for these operations.
\<close>

definition float16_of_byte :: "8 word \<Rightarrow> rat" where
  "float16_of_byte b = binary16 (of_nat (unat b))"

definition float16_true_divide :: "rat \<Rightarrow> rat \<Rightarrow> rat" where
  "float16_true_divide a b = binary16 (binary32 (a / b))"

definition float16_multiply :: "rat \<Rightarrow> rat \<Rightarrow> rat" where
  "float16_multiply a b = binary16 (binary32 (a * b))"

definition normalize_byte :: "8 word \<Rightarrow> rat" where
  "normalize_byte b = float16_true_divide (float16_of_byte b) (binary16 255)"

section \<open>dataset.py: CelebADataSet.load\_data\<close>

text \<open>
  The container holds the array \<^verbatim>\<open>images\<close>: one row of unsigned bytes per image, and
  reading it gives back the array that was written. \<^verbatim>\<open>full_size / size\<close> is true
  division (the module imports \<^verbatim>\<open>division\<close> from \<^verbatim>\<open>__future__\<close>): it raises for a
  size of \<open>0\<close> and gives a \<^verbatim>\<open>binary64\<close> number, of which \<^verbatim>\<open>np.ceil\<close> and \<^verbatim>\<open>int\<close> take
  the ceiling exactly. \<^verbatim>\<open>size=None\<close> stands for the whole array. The messages
  printed on the console are not part of the returned value and are left out.
\<close>

type_synonym image_row = "8 word list"

definition n_chunks :: "int \<Rightarrow> int \<Rightarrow> error + int" where
  "n_chunks full_size sz =
     (case py_true_divide full_size sz of
        Inl e \<Rightarrow> Inl e
      | Inr q \<Rightarrow> Inr \<lceil>q\<rceil>)"

text \<open>Lines 131 to 145: the rows selected for chunk \<open>offset\<close> of \<open>sz\<close> rows (\<open>sz\<close> is the source's \<^verbatim>\<open>size\<close>).\<close>

definition select_chunk :: "'a list \<Rightarrow> int option \<Rightarrow> int \<Rightarrow> error + 'a list" where
  "select_chunk faces size_arg offset =
     (let full_size = int (length faces);
          sz = (case size_arg of None \<Rightarrow> full_size | Some s \<Rightarrow> s)
      in case n_chunks full_size sz of
           Inl e \<Rightarrow> Inl e
         | Inr n \<Rightarrow>
             if offset \<ge> n \<and> n = 0 then Inl ZeroDivisionError
             else
               let offset' = (if offset \<ge> n then offset mod n else offset)
               in if offset' = n - 1
                  then Inr (py_slice_from faces (offset' * sz))
                  else Inr (py_slice faces (offset' * sz) ((offset' + 1) * sz)))"

text \<open>
  Lines 147 to 151: every byte is converted to \<^verbatim>\<open>float16\<close> and divided by \<open>255\<close>. The
  conversion of one byte is the parameter \<open>to_unit\<close>; the code has \<open>normalize_byte\<close>
  in its place.
\<close>

definition load_data ::
  "(8 word \<Rightarrow> 'f) \<Rightarrow> image_row list \<Rightarrow> int option \<Rightarrow> int \<Rightarrow> error + 'f list list" where
  "load_data to_unit faces size_arg offset =
     (case select_chunk faces size_arg offset of
        Inl e \<Rightarrow> Inl e
      | Inr chunk \<Rightarrow> Inr (map (map to_unit) chunk))"

section \<open>srgan\_model.py: SRGAN.generator\<close>

text \<open>
  The body of \<^verbatim>\<open>generator\<close> opens the variable scope and returns \<open>z\<close>; the scope creates
  no variable and \<open>reuse\<close> does not reach the result.
\<close>

definition generator :: "'t \<Rightarrow> bool option \<Rightarrow> 't" where
  "generator z reuse = z"

section \<open>srgan\_model.py: the losses of SRGAN.build\_began\<close>

text \<open>
  The losses are functions of the discriminator's outputs \<open>d_real\<close> and \<open>d_fake\<close> (one
  probability per example) and of the configured batch size. \<^verbatim>\<open>tf.nn.l2_loss(t)\<close> is
  \<open>sum(t ** 2) / 2\<close>. The \<^verbatim>\<open>float32\<close> arithmetic of the framework is taken over the
  reals; \<^verbatim>\<open>tf.reduce_sum\<close> of the scalar that \<^verbatim>\<open>mse_loss\<close> returns is that scalar.
\<close>

definition l2_loss :: "real list \<Rightarrow> real" where
  "l2_loss t = (\<Sum>v\<leftarrow>t. v\<^sup>2) / 2"

definition mse_loss :: "int \<Rightarrow> real list \<Rightarrow> real list \<Rightarrow> real" where
  "mse_loss batch_sz pred data =
     sqrt (2 * l2_loss (map2 (\<lambda>p d. p - d) pred data)) / real_of_int batch_sz"

definition ones_like :: "real list \<Rightarrow> real list" where
  "ones_like t = map (\<lambda>_. 1) t"

definition zeros_like :: "real list \<Rightarrow> real list" where
  "zeros_like t = map (\<lambda>_. 0) t"

definition d_real_loss :: "int \<Rightarrow> real list \<Rightarrow> real" where
  "d_real_loss batch_sz d_real = mse_loss batch_sz d_real (ones_like d_real)"

definition d_fake_loss :: "int \<Rightarrow> real list \<Rightarrow> real" where
  "d_fake_loss batch_sz d_fake = mse_loss batch_sz d_fake (zeros_like d_fake)"

definition d_loss :: "int \<Rightarrow> real list \<Rightarrow> real list \<Rightarrow> real" where
  "d_loss batch_sz d_real d_fake =
     (d_real_loss batch_sz d_real + d_fake_loss batch_sz d_fake) / 2"

definition g_loss :: "int \<Rightarrow> real list \<Rightarrow> real" where
  "g_loss batch_sz d_fake = mse_loss batch_sz d_fake (ones_like d_fake)"

text \<open>
  The specification's wording, for comparison with \<open>mse_loss\<close>: the mean of the squared
  deviations of the outputs from their targets.
\<close>

definition mean_squared_deviation :: "real list \<Rightarrow> real list \<Rightarrow> real" where
  "mean_squared_deviation pred data =
     (\<Sum>v\<leftarrow>map2 (\<lambda>p d. p - d) pred data. v\<^sup>2) / real (length pred)"

section \<open>dataset.py: DataIterator\<close>

text \<open>
  The fields of the object. \<open>self_x\<close> and \<open>self_y\<close> are the attributes \<^verbatim>\<open>self.x\<close> and
  \<^verbatim>\<open>self.y\<close>, arrays seen as lists of rows; \<^verbatim>\<open>self.y\<close> is only set when \<open>label_off\<close>
  is false.
\<close>

record ('a, 'b) DataIterator =
  self_x :: "'a list"
  label_off :: bool
  self_y :: "'b list option"
  batch_size :: int
  num_examples :: int
  num_batches :: int
  pointer :: int

text \<open>
  \<^verbatim>\<open>__init__\<close>: \<^verbatim>\<open>num_examples // batch_size\<close> is evaluated before the assertion, and
  raises for a batch size of \<open>0\<close>. Floor division of Python integers is \<open>div\<close> on \<open>int\<close>.
\<close>

definition DataIterator_init ::
  "'a list \<Rightarrow> 'b list \<Rightarrow> int \<Rightarrow> bool \<Rightarrow> error + ('a, 'b) DataIterator" where
  "DataIterator_init x y batch_sz loff =
     (let n = int (length x)
      in if batch_sz = 0 then Inl ZeroDivisionError
         else
           let it = \<lparr>self_x = x, label_off = loff,
                     self_y = (if loff then None else Some y),
                     batch_size = batch_sz, num_examples = n,
                     num_batches = n div batch_sz, pointer = 0\<rparr>
           in if batch_size it \<le> num_examples it then Inr it else Inl AssertionError)"

text \<open>
  \<^verbatim>\<open>a[perm]\<close> with an array of non-negative indices: the rows of \<open>a\<close> in the order of
  \<open>perm\<close>, or \<^verbatim>\<open>IndexError\<close> when an index is out of range.
\<close>

definition fancy_index :: "'a list \<Rightarrow> nat list \<Rightarrow> error + 'a list" where
  "fancy_index a perm =
     (if list_all (\<lambda>i. i < length a) perm then Inr (map (\<lambda>i. a ! i) perm) else Inl IndexError)"

text \<open>
  \<^verbatim>\<open>np.random.shuffle\<close> applied to \<^verbatim>\<open>np.arange(num_examples)\<close> leaves some arrangement
  of \<open>0 .. num_examples - 1\<close>. The arrangement drawn is an input of the model, and
  \<open>shuffled_arange\<close> says that a list is such an arrangement.
\<close>

definition shuffled_arange :: "int \<Rightarrow> nat list \<Rightarrow> bool" where
  "shuffled_arange n perm \<longleftrightarrow> sort perm = [0..<nat n]"

text \<open>Lines 173 to 181: the branch taken when the advanced pointer exceeds \<open>num_examples\<close>.\<close>

definition reshuffle ::
  "nat list \<Rightarrow> ('a, 'b) DataIterator \<Rightarrow> error + ('a, 'b) DataIterator" where
  "reshuffle perm it =
     (case fancy_index (self_x it) perm of
        Inl e \<Rightarrow> Inl e
      | Inr x' \<Rightarrow>
          if \<not> label_off it then
            (case self_y it of
               None \<Rightarrow> Inl AttributeError
             | Some y \<Rightarrow>
                 (case fancy_index y perm of
                    Inl e \<Rightarrow> Inl e
                  | Inr y' \<Rightarrow>
                      Inr (it\<lparr>self_x := x', self_y := Some y', pointer := batch_size it\<rparr>)))
          else Inr (it\<lparr>self_x := x', pointer := batch_size it\<rparr>))"

text \<open>
  \<^verbatim>\<open>next_batch\<close> returns the batch and the updated object. The batch is the slice of
  \<open>self_x\<close> and, unless \<open>label_off\<close>, the slice of \<open>self_y\<close>. \<open>perm\<close> is the arrangement
  that the shuffle of this call draws should it come to a shuffle.
\<close>

definition next_batch ::
  "nat list \<Rightarrow> ('a, 'b) DataIterator
     \<Rightarrow> error + (('a list \<times> 'b list option) \<times> ('a, 'b) DataIterator)" where
  "next_batch perm it =
     (let start = pointer it;
          it1 = it\<lparr>pointer := pointer it + batch_size it\<rparr>
      in case (if pointer it1 > num_examples it1
               then map_sum id (\<lambda>it2. (0, it2)) (reshuffle perm it1)
               else Inr (start, it1)) of
           Inl e \<Rightarrow> Inl e
         | Inr (start', it2) \<Rightarrow>
             let stop = pointer it2
             in if \<not> label_off it2 then
                  (case self_y it2 of
                     None \<Rightarrow> Inl AttributeError
                   | Some y \<Rightarrow>
                       Inr ((py_slice (self_x it2) start' stop,
                             Some (py_slice y start' stop)), it2))
                else Inr ((py_slice (self_x it2) start' stop, None), it2))"

text \<open>
  \<open>k\<close> successive calls of \<^verbatim>\<open>next_batch\<close>; \<open>draw j\<close> is the arrangement available to
  call number \<open>j\<close>. \<^verbatim>\<open>iterate\<close>, consumed to its end, makes \<open>range(num_batches)\<close>
  calls, none when \<open>num_batches\<close> is negative, and yields their batches in order.
\<close>

fun next_batches ::
  "(nat \<Rightarrow> nat list) \<Rightarrow> nat \<Rightarrow> ('a, 'b) DataIterator
     \<Rightarrow> error + (('a list \<times> 'b list option) list \<times> ('a, 'b) DataIterator)" where
  "next_batches draw 0 it = Inr ([], it)"
| "next_batches draw (Suc k) it =
     (case next_batch (draw 0) it of
        Inl e \<Rightarrow> Inl e
      | Inr (b, it') \<Rightarrow>
          (case next_batches (\<lambda>j. draw (Suc j)) k it' of
             Inl e \<Rightarrow> Inl e
           | Inr (bs, it'') \<Rightarrow> Inr (b # bs, it'')))"

definition iterate ::
  "(nat \<Rightarrow> nat list) \<Rightarrow> ('a, 'b) DataIterator
     \<Rightarrow> error + (('a list \<times> 'b list option) list \<times> ('a, 'b) DataIterator)" where
  "iterate draw it = next_batches draw (nat (num_batches it)) it"

text \<open>
  The states of an iterator that was built with a batch size of at least \<open>1\<close> and, when it
  carries labels, with as many labels as features.
\<close>

definition iter_inv :: "('a, 'b) DataIterator \<Rightarrow> bool" where
  "iter_inv it \<longleftrightarrow>
     num_examples it = int (length (self_x it)) \<and>
     1 \<le> batch_size it \<and> batch_size it \<le> num_examples it \<and>
     0 \<le> pointer it \<and> pointer it \<le> num_examples it \<and>
     (case self_y it of
        None \<Rightarrow> label_off it
      | Some l \<Rightarrow> \<not> label_off it \<and> length l = length (self_x it))"

text \<open>
  Two invariants of an iterator with labels. \<open>paired x0 y0\<close>: every feature row stands
  beside the label it stood beside in the arrays \<open>x0\<close> and \<open>y0\<close>, and the pointer is not
  negative unless the batch size is not positive. \<open>same_length\<close>: the two stored arrays
  have \<open>num_examples\<close> rows each.
\<close>

definition paired :: "'a list \<Rightarrow> 'b list \<Rightarrow> ('a, 'b) DataIterator \<Rightarrow> bool" where
  "paired x0 y0 it \<longleftrightarrow>
     \<not> label_off it \<and> (0 \<le> pointer it \<or> batch_size it \<le> 0) \<and>
     (case self_y it of
        None \<Rightarrow> False
      | Some l \<Rightarrow> set (zip (self_x it) l) \<subseteq> set (zip x0 y0))"

definition same_length :: "('a, 'b) DataIterator \<Rightarrow> bool" where
  "same_length it \<longleftrightarrow>
     \<not> label_off it \<and> num_examples it = int (length (self_x it)) \<and>
     (case self_y it of None \<Rightarrow> False | Some l \<Rightarrow> length l = length (self_x it))"

section \<open>Properties of the rounding functions\<close>

lemma of_int_bitlen_bounds:
  assumes "0 < p"
  shows "(2::rat) powi (bitlen p - 1) \<le> of_int p" and "of_int p < (2::rat) powi bitlen p"
proof -
  have b: "2 ^ nat (bitlen p - 1) \<le> p" "p < 2 ^ nat (bitlen p)"
    using bitlen_bounds [OF assms] by simp_all
  have ge: "1 \<le> bitlen p"
    using assms bitlen_eq_zero_iff [of p] bitlen_nonneg [of p] by linarith
  have "rat_of_int (2 ^ nat (bitlen p - 1)) \<le> of_int p"
    using b(1) by (simp only: of_int_le_iff)
  then show "(2::rat) powi (bitlen p - 1) \<le> of_int p"
    using ge by (simp add: power_int_nonneg_exp)
  have "rat_of_int p < of_int (2 ^ nat (bitlen p))"
    using b(2) by (simp only: of_int_less_iff)
  then show "of_int p < (2::rat) powi bitlen p"
    using ge by (simp add: power_int_nonneg_exp)
qed

lemma binade_bounds:
  assumes "0 < x"
  shows "2 powi binade x \<le> x" and "x < 2 powi (binade x + 1)"
proof -
  obtain p d where q: "quotient_of x = (p, d)" by (cases "quotient_of x")
  have d: "0 < d" using quotient_of_denom_pos [OF q] .
  have x: "x = of_int p / of_int d" using quotient_of_div [OF q] .
  have p: "0 < p" using assms d unfolding x by (simp add: zero_less_divide_iff)
  define g where "g = bitlen p - bitlen d"
  note bp = of_int_bitlen_bounds [OF p] and bd = of_int_bitlen_bounds [OF d]
  have "of_int p / of_int d < (2::rat) powi bitlen p / 2 powi (bitlen d - 1)"
    using p bp(2) bd(1) by (intro frac_less) simp_all
  also have "\<dots> = 2 powi (bitlen p - (bitlen d - 1))"
    by (rule power_int_diff [symmetric]) simp
  also have "bitlen p - (bitlen d - 1) = g + 1"
    by (simp add: g_def)
  finally have up: "x < 2 powi (g + 1)" unfolding x .
  have "(2::rat) powi (bitlen p - 1) / 2 powi bitlen d < of_int p / of_int d"
    using d bp(1) bd(2) by (intro frac_less2) simp_all
  moreover have "(2::rat) powi (bitlen p - 1) / 2 powi bitlen d = 2 powi (bitlen p - 1 - bitlen d)"
    by (rule power_int_diff [symmetric]) simp
  moreover have "bitlen p - 1 - bitlen d = g - 1"
    by (simp add: g_def)
  ultimately have lo: "2 powi (g - 1) < x" unfolding x by simp
  have b: "binade x = (if 2 powi g \<le> x then g else g - 1)"
    by (simp add: binade_def q g_def Let_def)
  show "2 powi binade x \<le> x" using lo b by auto
  show "x < 2 powi (binade x + 1)" using up b by auto
qed

lemma binade_unique:
  assumes "2 powi e \<le> x" and "x < 2 powi (e + 1)"
  shows "binade x = e"
proof -
  have x: "0 < x" using assms(1) zero_less_power_int [of "2::rat" e] by linarith
  note b = binade_bounds [OF x]
  have "(2::rat) powi e < 2 powi (binade x + 1)" using assms(1) b(2) by linarith
  then have 1: "e < binade x + 1"
    using power_int_increasing [of "binade x + 1" e "2::rat"] by (cases "e < binade x + 1") auto
  have "(2::rat) powi binade x < 2 powi (e + 1)" using assms(2) b(1) by linarith
  then have 2: "binade x < e + 1"
    using power_int_increasing [of "e + 1" "binade x" "2::rat"] by (cases "binade x < e + 1") auto
  show ?thesis using 1 2 by simp
qed

lemma round_half_even_of_int [simp]: "round_half_even (of_int k) = k"
  by (simp add: round_half_even_def)

lemma round_half_even_bounds:
  shows "of_int (round_half_even x) \<le> x + 1 / 2"
    and "x - 1 / 2 \<le> of_int (round_half_even x)"
proof -
  have f: "of_int \<lfloor>x\<rfloor> \<le> x" "x < of_int \<lfloor>x\<rfloor> + 1" by linarith+
  consider "x - of_int \<lfloor>x\<rfloor> < 1 / 2" | "1 / 2 < x - of_int \<lfloor>x\<rfloor>"
    | "x - of_int \<lfloor>x\<rfloor> = 1 / 2" by linarith
  then have "of_int (round_half_even x) \<le> x + 1 / 2 \<and> x - 1 / 2 \<le> of_int (round_half_even x)"
  proof cases
    case 1
    then have r: "round_half_even x = \<lfloor>x\<rfloor>" by (simp add: round_half_even_def Let_def)
    show ?thesis unfolding r using f 1 by linarith
  next
    case 2
    then have r: "round_half_even x = \<lfloor>x\<rfloor> + 1" by (simp add: round_half_even_def Let_def)
    have a: "rat_of_int (\<lfloor>x\<rfloor> + 1) = of_int \<lfloor>x\<rfloor> + 1" by simp
    show ?thesis unfolding r a using f 2 by linarith
  next
    case 3
    have a: "rat_of_int (\<lfloor>x\<rfloor> + 1) = of_int \<lfloor>x\<rfloor> + 1" by simp
    from 3 have "round_half_even x = \<lfloor>x\<rfloor> \<or> round_half_even x = \<lfloor>x\<rfloor> + 1"
      by (simp add: round_half_even_def Let_def)
    then show ?thesis
    proof
      assume r: "round_half_even x = \<lfloor>x\<rfloor>"
      show ?thesis unfolding r using f 3 by linarith
    next
      assume r: "round_half_even x = \<lfloor>x\<rfloor> + 1"
      show ?thesis unfolding r a using f 3 by linarith
    qed
  qed
  then show "of_int (round_half_even x) \<le> x + 1 / 2"
    and "x - 1 / 2 \<le> of_int (round_half_even x)" by simp_all
qed

lemma round_half_even_le:
  assumes "x \<le> of_int k"
  shows "round_half_even x \<le> k"
proof -
  have "\<lfloor>x\<rfloor> \<le> k" using assms by (simp add: floor_le_iff)
  moreover have "x = of_int k" if "\<lfloor>x\<rfloor> = k" using that assms by linarith
  ultimately show ?thesis
    by (cases "\<lfloor>x\<rfloor> = k") (auto simp add: round_half_even_def Let_def)
qed

lemma round_half_even_gt:
  assumes "of_int k + 1 / 2 < x"
  shows "k < round_half_even x"
proof -
  have "rat_of_int k < of_int (round_half_even x)"
    using round_half_even_bounds(2) [of x] assms by linarith
  then show ?thesis by (simp only: of_int_less_iff)
qed

lemma round_float_pos:
  assumes "0 < x" and "emin \<le> binade x"
  shows "round_float prec emin x =
           of_int (round_half_even (x / 2 powi (binade x - int prec + 1)))
             * 2 powi (binade x - int prec + 1)"
  using assms by (simp add: round_float_def Let_def max_def)

lemma round_half_even_nonneg:
  assumes "0 \<le> x"
  shows "0 \<le> round_half_even x"
proof -
  have "rat_of_int (- 1) < of_int (round_half_even x)"
    using round_half_even_bounds(2) [of x] assms by simp
  then have "- 1 < round_half_even x" by (simp only: of_int_less_iff)
  then show ?thesis by simp
qed

lemma two_powi_neg: "0 \<le> n \<Longrightarrow> (2::rat) powi (- n) = 1 / 2 ^ nat n"
  by (simp add: power_int_minus power_int_nonneg_exp divide_inverse)

lemma double_quotient_ceiling:
  fixes t s :: int
  assumes s: "1 \<le> s" and st: "s \<le> t" and t: "t \<le> 2 ^ 53"
  shows "\<lceil>round_float 53 (- 1022) (rat_of_int t / rat_of_int s)\<rceil>
           = \<lceil>rat_of_int t / rat_of_int s\<rceil>
       \<and> \<bar>round_float 53 (- 1022) (rat_of_int t / rat_of_int s)\<bar> < 2 ^ 1024"
proof -
  define q where "q = rat_of_int t / rat_of_int s"
  have spos: "0 < rat_of_int s" using s by simp
  have q1: "1 \<le> q" using s st by (simp add: q_def pos_le_divide_eq)
  have "rat_of_int t \<le> rat_of_int (2 ^ 53) * of_int s"
  proof -
    have "t * 1 \<le> 2 ^ 53 * s" using t s by (intro mult_mono) simp_all
    then have "rat_of_int (t * 1) \<le> rat_of_int (2 ^ 53 * s)" by (simp only: of_int_le_iff)
    then show ?thesis by simp
  qed
  then have q53: "q \<le> 2 ^ 53" using spos by (simp add: q_def pos_divide_le_eq)
  have qpos: "0 < q" using q1 by simp
  define e where "e = binade q"
  note b = binade_bounds [OF qpos, folded e_def]
  have e0: "0 \<le> e"
  proof (rule ccontr)
    assume "\<not> 0 \<le> e"
    then have "e + 1 \<le> 0" by simp
    then have "(2::rat) powi (e + 1) \<le> 2 powi 0" by (intro power_int_increasing) simp_all
    then show False using b(2) q1 by simp
  qed
  have e53: "e \<le> 53"
  proof -
    have "(2::rat) powi e \<le> 2 powi 53" using b(1) q53 by simp
    then show ?thesis using power_int_le_imp_le_exp [of "2::rat" e 53] by simp
  qed
  define R where "R = round_half_even (q / 2 powi (e - 52))"
  have rf: "round_float 53 (- 1022) q = of_int R * 2 powi (e - 52)"
    using round_float_pos [OF qpos, of "- 1022" 53] e0 by (simp add: e_def R_def)
  have Rpos: "0 \<le> R"
    unfolding R_def using qpos by (intro round_half_even_nonneg) simp
  have main: "\<lceil>rat_of_int R * 2 powi (e - 52)\<rceil> = \<lceil>q\<rceil>"
  proof (cases "s dvd t")
    case True
    then obtain m where m: "t = s * m" by (auto simp add: dvd_def)
    have qm: "q = of_int m" using spos by (simp add: q_def m)
    have "\<exists>j. q / 2 powi (e - 52) = rat_of_int j"
    proof (cases "e \<le> 52")
      case True
      have "(2::rat) powi (e - 52) = 1 / 2 ^ nat (52 - e)"
        using two_powi_neg [of "52 - e"] True by simp
      then have "q / 2 powi (e - 52) = rat_of_int (m * 2 ^ nat (52 - e))"
        by (simp add: qm)
      then show ?thesis by blast
    next
      case False
      then have e: "e = 53" using e53 by simp
      have "(2::rat) ^ 53 \<le> q" using b(1) by (simp add: e)
      then have "q = 2 ^ 53" using q53 by simp
      then have "q / 2 powi (e - 52) = rat_of_int (2 ^ 52)" by (simp add: e)
      then show ?thesis by blast
    qed
    then obtain j where j: "q / 2 powi (e - 52) = rat_of_int j" by blast
    have Rj: "R = j" by (simp add: R_def j)
    have "q = rat_of_int j * 2 powi (e - 52)"
      using j by (simp add: nonzero_divide_eq_eq)
    then show ?thesis by (simp add: Rj)
  next
    case False
    define k where "k = t div s"
    define r where "r = t mod s"
    have "0 \<le> t mod s" and "t mod s < s" using s by simp_all
    moreover have "t mod s \<noteq> 0" using False by (simp add: dvd_eq_mod_eq_0)
    ultimately have r: "1 \<le> r" "r < s" by (simp_all add: r_def)
    have tk: "t = k * s + r" by (simp add: k_def r_def)
    have s2: "2 \<le> s" using r by simp
    have qk: "q = of_int k + of_int r / of_int s"
      using spos by (simp add: q_def tk add_divide_distrib)
    have frac: "0 < rat_of_int r / of_int s" "rat_of_int r / of_int s < 1"
      using r spos by simp_all
    have ceil: "\<lceil>q\<rceil> = k + 1"
      unfolding qk using frac by (intro ceiling_unique) simp_all
    have "rat_of_int t \<le> 2 ^ 53" using t by (metis of_int_le_iff of_int_numeral of_int_power)
    moreover have "rat_of_int s \<ge> 2" using s2 by simp
    ultimately have "q \<le> 2 ^ 53 / 2"
      unfolding q_def using spos by (intro frac_le) simp_all
    then have q52: "q \<le> 2 ^ 52" by simp
    have e52: "e \<le> 52"
    proof -
      have "(2::rat) powi e \<le> 2 powi 52" using b(1) q52 by simp
      then show ?thesis using power_int_le_imp_le_exp [of "2::rat" e 52] by simp
    qed
    define N :: int where "N = 2 ^ nat (52 - e)"
    have Npos: "1 \<le> N" by (simp add: N_def)
    have u: "(2::rat) powi (e - 52) = 1 / of_int N"
      using two_powi_neg [of "52 - e"] e52 by (simp add: N_def)
    have x: "q / 2 powi (e - 52) = q * of_int N" by (simp add: u)
    have pe: "(2::rat) powi e = of_int (2 ^ nat e)" using e0 by (simp add: power_int_nonneg_exp)
    have "rat_of_int (2 ^ nat e) * of_int s \<le> of_int t"
      using b(1) spos by (simp add: q_def pe pos_le_divide_eq)
    then have "rat_of_int (2 ^ nat e * s) \<le> of_int t" by simp
    then have es: "2 ^ nat e * s \<le> t" by (simp only: of_int_le_iff)
    have split53: "(2::int) ^ 53 = 2 ^ nat e * (2 * N)"
    proof -
      have "nat e + (1 + nat (52 - e)) = 53" using e0 e52 by simp
      then have "(2::int) ^ 53 = 2 ^ (nat e + (1 + nat (52 - e)))" by simp
      then show ?thesis by (simp add: N_def power_add)
    qed
    have tle: "t \<le> 2 ^ nat e * (2 * N)" using t unfolding split53 .
    have sle: "s \<le> 2 * N"
    proof -
      have "2 ^ nat e * s \<le> 2 ^ nat e * (2 * N)" using es tle by linarith
      then show ?thesis by simp
    qed
    have sne: "s \<noteq> 2 * N"
    proof
      assume a: "s = 2 * N"
      have "2 ^ nat e * (2 * N) \<le> t" using es unfolding a .
      then have "t = 2 ^ nat e * s" using tle a by simp
      then have "s dvd t" by simp
      then show False using False by simp
    qed
    have slt: "s < 2 * N" using sle sne by simp
    have half: "1 / 2 < rat_of_int r / of_int s * of_int N"
    proof -
      have "s < 2 * N * r"
      proof -
        have "2 * N * 1 \<le> 2 * N * r" using r(1) Npos by (intro mult_left_mono) simp_all
        then show ?thesis using slt by simp
      qed
      then have "rat_of_int s < rat_of_int (2 * N * r)" by (simp only: of_int_less_iff)
      then have "rat_of_int s < 2 * (of_int r * of_int N)" by (simp add: mult.commute mult.left_commute)
      then have "1 / 2 < (rat_of_int r * of_int N) / of_int s"
        using spos by (simp add: pos_less_divide_eq)
      then show ?thesis by simp
    qed
    have lower: "k * N < R"
      unfolding R_def x
    proof (rule round_half_even_gt)
      show "rat_of_int (k * N) + 1 / 2 < q * rat_of_int N"
        using half by (simp add: qk algebra_simps)
    qed
    have upper: "R \<le> (k + 1) * N"
      unfolding R_def x
    proof (rule round_half_even_le)
      have "q \<le> of_int (k + 1)" using frac(2) by (simp add: qk)
      then have "q * rat_of_int N \<le> of_int (k + 1) * of_int N"
        using Npos by (intro mult_right_mono) simp_all
      then show "q * rat_of_int N \<le> rat_of_int ((k + 1) * N)" by simp
    qed
    have Nr: "0 < rat_of_int N" using Npos by simp
    have "rat_of_int (k * N) < of_int R" using lower by (simp only: of_int_less_iff)
    then have lo: "rat_of_int k < of_int R / of_int N"
      using Nr by (simp add: pos_less_divide_eq)
    have "rat_of_int R \<le> of_int ((k + 1) * N)" using upper by (simp only: of_int_le_iff)
    then have hi: "rat_of_int R / of_int N \<le> of_int k + 1"
      using Nr by (simp add: pos_divide_le_eq)
    have "\<lceil>rat_of_int R / of_int N\<rceil> = k + 1"
      using lo hi by (intro ceiling_unique) simp_all
    then show ?thesis by (simp add: u ceil)
  qed
  define X where "X = rat_of_int R * 2 powi (e - 52)"
  have nn: "0 \<le> X" using Rpos by (simp add: X_def)
  have le1: "X \<le> of_int \<lceil>X\<rceil>" by (rule le_of_int_ceiling)
  have c: "rat_of_int \<lceil>q\<rceil> \<le> 2 ^ 53"
  proof -
    have "\<lceil>q\<rceil> \<le> 2 ^ 53" using q53 by (simp add: ceiling_le_iff)
    then have "rat_of_int \<lceil>q\<rceil> \<le> rat_of_int (2 ^ 53)" by (simp only: of_int_le_iff)
    then show ?thesis by simp
  qed
  have eqc: "rat_of_int \<lceil>X\<rceil> = rat_of_int \<lceil>q\<rceil>" using main by (simp add: X_def)
  have "X \<le> 2 ^ 53" using le1 c eqc by linarith
  moreover have "(2::rat) ^ 53 < 2 ^ 1024" by (rule power_strict_increasing) simp_all
  ultimately have "\<bar>X\<bar> < 2 ^ 1024" using nn by linarith
  then have "\<bar>rat_of_int R * 2 powi (e - 52)\<bar> < 2 ^ 1024" by (simp only: X_def)
  then show ?thesis using main by (simp add: rf q_def [symmetric])
qed


lemma binade_ge:
  assumes "2 powi m \<le> x"
  shows "m \<le> binade x"
proof -
  have x: "0 < x" using assms zero_less_power_int [of "2::rat" m] by linarith
  have "(2::rat) powi m < 2 powi (binade x + 1)"
    using assms binade_bounds(2) [OF x] by linarith
  then have "m < binade x + 1"
    using power_int_increasing [of "binade x + 1" m "2::rat"] by (cases "m < binade x + 1") auto
  then show ?thesis by simp
qed

lemma binade_le:
  assumes "0 < x" and "x \<le> 2 powi m"
  shows "binade x \<le> m"
proof -
  have "(2::rat) powi binade x \<le> 2 powi m"
    using assms binade_bounds(1) [OF assms(1)] by linarith
  then show ?thesis
    using power_int_strict_increasing [of m "binade x" "2::rat"] by (cases "binade x \<le> m") auto
qed

lemma round_float_gen:
  assumes "0 < x"
  shows "round_float prec emin x =
           of_int (round_half_even (x / 2 powi (max (binade x) emin - int prec + 1)))
             * 2 powi (max (binade x) emin - int prec + 1)"
  using assms by (simp add: round_float_def Let_def)

lemma round_float_zero [simp]: "round_float prec emin 0 = 0"
  by (simp add: round_float_def)

lemma round_float_nonneg:
  assumes "0 \<le> x"
  shows "0 \<le> round_float prec emin x"
proof (cases "x = 0")
  case True
  then show ?thesis by simp
next
  case False
  then have x: "0 < x" using assms by simp
  have "0 \<le> round_half_even (x / 2 powi (max (binade x) emin - int prec + 1))"
    using x by (intro round_half_even_nonneg) simp
  then show ?thesis unfolding round_float_gen [OF x] by simp
qed

lemma round_float_le_one:
  assumes x: "0 < x" and x1: "x \<le> 1" and emin: "emin \<le> 0" and prec: "1 \<le> prec"
  shows "round_float prec emin x \<le> 1"
proof -
  define E where "E = max (binade x) emin"
  have "binade x \<le> 0" using binade_le [OF x, of 0] x1 by simp
  then have E0: "E \<le> 0" using emin by (simp add: E_def)
  define k where "k = nat (int prec - 1 - E)"
  have kE: "E - int prec + 1 = - int k" using E0 prec by (simp add: k_def)
  have u: "(2::rat) powi (E - int prec + 1) = 1 / 2 ^ k"
    unfolding kE using two_powi_neg [of "int k"] by simp
  have "x * 2 ^ k \<le> rat_of_int (2 ^ k)" using x1 by simp
  then have "round_half_even (x * 2 ^ k) \<le> 2 ^ k" by (rule round_half_even_le)
  then have "rat_of_int (round_half_even (x * 2 ^ k)) \<le> rat_of_int (2 ^ k)"
    by (simp only: of_int_le_iff)
  then have "rat_of_int (round_half_even (x * 2 ^ k)) / 2 ^ k \<le> 1"
    by (simp add: pos_divide_le_eq)
  then show ?thesis
    unfolding round_float_gen [OF x] E_def [symmetric] u by simp
qed

lemma round_float_error:
  assumes x: "0 < x" and emin: "emin \<le> binade x"
  shows "\<bar>round_float prec emin x - x\<bar> \<le> x / 2 ^ prec"
proof -
  define e where "e = binade x"
  define u where "u = (2::rat) powi (e - int prec + 1)"
  define R where "R = rat_of_int (round_half_even (x / u))"
  have upos: "0 < u" by (simp add: u_def)
  have rf: "round_float prec emin x = R * u"
    using round_float_pos [OF x emin, of prec] by (simp add: R_def u_def e_def)
  have "\<bar>R - x / u\<bar> \<le> 1 / 2"
    using round_half_even_bounds [of "x / u"] unfolding R_def by linarith
  then have "\<bar>R - x / u\<bar> * u \<le> 1 / 2 * u"
    using upos by (intro mult_right_mono) simp_all
  moreover have "\<bar>R - x / u\<bar> * u = \<bar>R * u - x\<bar>"
  proof -
    have "\<bar>R - x / u\<bar> * u = \<bar>(R - x / u) * u\<bar>" using upos by (simp add: abs_mult)
    also have "(R - x / u) * u = R * u - x" using upos by (simp add: left_diff_distrib)
    finally show ?thesis .
  qed
  ultimately have err: "\<bar>R * u - x\<bar> \<le> u / 2" by simp
  have "u = 2 powi e * 2 powi (1 - int prec)"
    unfolding u_def by (subst power_int_add [symmetric]) (simp_all add: algebra_simps)
  also have "(2::rat) powi (1 - int prec) = 2 / 2 ^ prec"
    by (simp add: power_int_diff)
  finally have "u / 2 = 2 powi e / 2 ^ prec" by simp
  also have "\<dots> \<le> x / 2 ^ prec"
    using binade_bounds(1) [OF x] by (simp add: e_def divide_right_mono)
  finally have "u / 2 \<le> x / 2 ^ prec" .
  then show ?thesis unfolding rf using err by linarith
qed

lemma round_float_exact:
  assumes m: "0 < m" and mp: "m < 2 ^ prec" and emin: "emin \<le> 0"
  shows "round_float prec emin (rat_of_int m) = rat_of_int m"
proof -
  define x where "x = rat_of_int m"
  have x: "0 < x" using m by (simp add: x_def)
  have "(2::rat) powi 0 \<le> x" using m by (simp add: x_def)
  then have e0: "0 \<le> binade x" by (rule binade_ge)
  have "x < rat_of_int (2 ^ prec)" unfolding x_def using mp by (simp only: of_int_less_iff)
  then have "(2::rat) powi binade x < 2 powi int prec"
    using binade_bounds(1) [OF x] by simp
  then have ep: "binade x < int prec"
    using power_int_increasing [of "int prec" "binade x" "2::rat"]
    by (cases "binade x < int prec") auto
  define k where "k = nat (int prec - 1 - binade x)"
  have kE: "binade x - int prec + 1 = - int k" using ep by (simp add: k_def)
  have u: "(2::rat) powi (binade x - int prec + 1) = 1 / 2 ^ k"
    unfolding kE using two_powi_neg [of "int k"] by simp
  have "x / (1 / 2 ^ k) = rat_of_int (m * 2 ^ k)" by (simp add: x_def)
  then have "round_half_even (x / (1 / 2 ^ k)) = m * 2 ^ k"
    by (simp only: round_half_even_of_int)
  then have "round_float prec emin x = rat_of_int (m * 2 ^ k) * (1 / 2 ^ k)"
    using round_float_pos [OF x, of emin prec] e0 emin by (simp add: u)
  then show ?thesis by (simp add: x_def)
qed

lemma round_half_even_near:
  assumes "\<bar>x - rat_of_int k\<bar> < 1 / 2"
  shows "round_half_even x = k"
proof -
  have a: "x - rat_of_int k < 1 / 2" "rat_of_int k - x < 1 / 2" using assms by linarith+
  have c: "rat_of_int (k - 1) = of_int k - 1" "rat_of_int (k + 1) = of_int k + 1" by simp_all
  have "rat_of_int (k - 1) + 1 / 2 < x" unfolding c using a by linarith
  then have 1: "k - 1 < round_half_even x" by (rule round_half_even_gt)
  have "rat_of_int (round_half_even x) < rat_of_int (k + 1)"
    unfolding c using round_half_even_bounds(1) [of x] a by linarith
  then have 2: "round_half_even x < k + 1" by (simp only: of_int_less_iff)
  show ?thesis using 1 2 by simp
qed


lemma round_half_even_zero [simp]: "round_half_even 0 = 0"
  using round_half_even_of_int [of 0] by simp

lemma binary16_of_nat:
  assumes "n \<le> 255"
  shows "binary16 (of_nat n) = of_nat n"
proof (cases "n = 0")
  case True
  then show ?thesis by (simp add: binary16_def)
next
  case False
  have "round_float 11 (- 14) (rat_of_int (int n)) = rat_of_int (int n)"
    using False assms by (intro round_float_exact) simp_all
  then show ?thesis by (simp add: binary16_def)
qed

lemma single_then_half:
  assumes lo: "2 powi m \<le> x" and m: "- 13 \<le> m" and hi: "x \<le> c"
  shows "\<bar>binary16 (binary32 x) - x\<bar> \<le> c / 2 ^ 24 + (c + c / 2 ^ 24) / 2 ^ 11"
    and "2 powi (m - 1) \<le> binary32 x"
proof -
  have x: "0 < x" using lo zero_less_power_int [of "2::rat" m] by linarith
  have bx: "m \<le> binade x" using lo by (rule binade_ge)
  have e1: "\<bar>binary32 x - x\<bar> \<le> x / 2 ^ 24"
    unfolding binary32_def using x bx m by (intro round_float_error) simp_all
  have "x / 2 ^ 24 \<le> c / 2 ^ 24" using hi by (simp add: divide_right_mono)
  then have e1c: "\<bar>binary32 x - x\<bar> \<le> c / 2 ^ 24" using e1 by linarith
  have "x / 2 ^ 24 \<le> x / 2" using x by (intro divide_left_mono) simp_all
  then have "x / 2 \<le> binary32 x" using e1 by linarith
  moreover have "(2::rat) powi (m - 1) = 2 powi m / 2" by (simp add: power_int_diff)
  ultimately show z: "2 powi (m - 1) \<le> binary32 x" using lo by linarith
  have zpos: "0 < binary32 x"
    using z zero_less_power_int [of "2::rat" "m - 1"] by linarith
  have bz: "m - 1 \<le> binade (binary32 x)" using z by (rule binade_ge)
  have e2: "\<bar>binary16 (binary32 x) - binary32 x\<bar> \<le> binary32 x / 2 ^ 11"
    unfolding binary16_def using zpos bz m by (intro round_float_error) simp_all
  have "binary32 x \<le> c + c / 2 ^ 24" using e1c hi by linarith
  then have "binary32 x / 2 ^ 11 \<le> (c + c / 2 ^ 24) / 2 ^ 11" by (simp add: divide_right_mono)
  then show "\<bar>binary16 (binary32 x) - x\<bar> \<le> c / 2 ^ 24 + (c + c / 2 ^ 24) / 2 ^ 11"
    using e1c e2 by linarith
qed

lemma single_then_half_le_one:
  assumes "0 \<le> x" and "x \<le> 1"
  shows "0 \<le> binary16 (binary32 x)" and "binary16 (binary32 x) \<le> 1"
proof -
  have z0: "0 \<le> binary32 x" unfolding binary32_def using assms(1) by (rule round_float_nonneg)
  show "0 \<le> binary16 (binary32 x)" unfolding binary16_def using z0 by (rule round_float_nonneg)
  have z1: "binary32 x \<le> 1"
  proof (cases "x = 0")
    case True
    then show ?thesis by (simp add: binary32_def)
  next
    case False
    then show ?thesis unfolding binary32_def using assms by (intro round_float_le_one) simp_all
  qed
  show "binary16 (binary32 x) \<le> 1"
  proof (cases "binary32 x = 0")
    case True
    then show ?thesis by (simp add: binary16_def)
  next
    case False
    then show ?thesis unfolding binary16_def using z0 z1 by (intro round_float_le_one) simp_all
  qed
qed

lemma byte_round_trip:
  fixes n :: nat
  assumes n: "n \<le> 255"
  defines "v \<equiv> binary16 (binary32 (rat_of_nat n / 255))"
  shows "0 \<le> v \<and> v \<le> 1
       \<and> \<bar>v * 255 - rat_of_nat n\<bar> < 1 / 2
       \<and> \<bar>binary16 (binary32 (v * 255)) - rat_of_nat n\<bar> < 1 / 2"
proof -
  have y0: "0 \<le> rat_of_nat n / 255" by simp
  have y1: "rat_of_nat n / 255 \<le> 1" using n by simp
  have range: "0 \<le> v \<and> v \<le> 1"
    unfolding v_def using single_then_half_le_one [OF y0 y1] by simp
  have both: "\<bar>v * 255 - rat_of_nat n\<bar> < 1 / 2
        \<and> \<bar>binary16 (binary32 (v * 255)) - rat_of_nat n\<bar> < 1 / 2"
  proof (cases "n = 0")
    case True
    then show ?thesis by (simp add: v_def binary16_def binary32_def)
  next
    case False
    then have n1: "1 \<le> rat_of_nat n" by simp
    have lo: "2 powi (- 8) \<le> rat_of_nat n / 255"
    proof -
      have "(2::rat) powi (- 8) = 1 / 256" by (simp add: power_int_minus)
      then show ?thesis using n1 by simp
    qed
    have e: "\<bar>v - rat_of_nat n / 255\<bar> \<le> 1 / 2 ^ 24 + (1 + 1 / 2 ^ 24) / 2 ^ 11"
      unfolding v_def using single_then_half(1) [OF lo _ y1] by simp
    have "\<bar>v * 255 - rat_of_nat n\<bar> = \<bar>v - rat_of_nat n / 255\<bar> * 255"
    proof -
      have "v * 255 - rat_of_nat n = (v - rat_of_nat n / 255) * 255" by simp
      then show ?thesis by (simp only: abs_mult)
    qed
    then have d: "\<bar>v * 255 - rat_of_nat n\<bar> \<le> (1 / 2 ^ 24 + (1 + 1 / 2 ^ 24) / 2 ^ 11) * 255"
      using e by simp
    have small: "(1 / 2 ^ 24 + (1 + 1 / 2 ^ 24) / 2 ^ 11) * 255 < (1 / 8 :: rat)" by simp
    have near: "\<bar>v * 255 - rat_of_nat n\<bar> < 1 / 2" using d small by linarith
    have mlo: "2 powi (- 1) \<le> v * 255"
    proof -
      have "(2::rat) powi (- 1) = 1 / 2" by simp
      then show ?thesis using d small n1 by linarith
    qed
    have nhi: "rat_of_nat n \<le> 255" using n by simp
    have mhi: "v * 255 \<le> 256" using d small nhi by linarith
    have e2: "\<bar>binary16 (binary32 (v * 255)) - v * 255\<bar>
                \<le> 256 / 2 ^ 24 + (256 + 256 / 2 ^ 24) / 2 ^ 11"
      using single_then_half(1) [OF mlo _ mhi] by simp
    have small2: "(256 / 2 ^ 24 + (256 + 256 / 2 ^ 24) / 2 ^ 11 :: rat) < 1 / 4" by simp
    have "\<bar>binary16 (binary32 (v * 255)) - rat_of_nat n\<bar> < 1 / 2"
      using e2 small2 d small by linarith
    then show ?thesis using near by simp
  qed
  show ?thesis using range both by simp
qed

lemma normalize_byte_alt:
  "normalize_byte b = binary16 (binary32 (rat_of_nat (unat b) / 255))"
proof -
  have u: "unat b \<le> 255" using unsigned_less [of b, where ?'a = nat] by simp
  have c: "binary16 255 = 255" using binary16_of_nat [of 255] by simp
  show ?thesis
    unfolding normalize_byte_def float16_true_divide_def float16_of_byte_def
      binary16_of_nat [OF u] c by (rule refl)
qed


section \<open>The number of chunks\<close>

lemma n_chunks_exact:
  assumes "1 \<le> s" and "s \<le> t" and "t \<le> 2 ^ 53"
  shows "n_chunks t s = Inr \<lceil>rat_of_int t / rat_of_int s\<rceil>"
  using double_quotient_ceiling [OF assms] assms(1)
  by (simp add: n_chunks_def py_true_divide_def binary64_def Let_def)

lemma double_small_quotient:
  fixes t s :: int
  assumes t: "1 \<le> t" and ts: "t < s" and big: "s < t * 2 ^ 1075"
  shows "\<lceil>binary64 (rat_of_int t / rat_of_int s)\<rceil> = 1
       \<and> \<bar>binary64 (rat_of_int t / rat_of_int s)\<bar> < 2 ^ 1024"
proof -
  define q where "q = rat_of_int t / rat_of_int s"
  have spos: "0 < rat_of_int s" using t ts by simp
  have qpos: "0 < q" using t spos by (simp add: q_def)
  have q1: "q \<le> 1" using ts spos by (simp add: q_def pos_divide_le_eq)
  define E where "E = max (binade q) (- 1022)"
  define u where "u = (2::rat) powi (E - 52)"
  define R where "R = round_half_even (q / u)"
  have rf: "binary64 q = of_int R * u"
    using round_float_gen [OF qpos, of 53 "- 1022"] by (simp add: binary64_def R_def u_def E_def)
  have upos: "0 < u" by (simp add: u_def)
  have uh: "u = 2 * 2 powi (E - 53)"
  proof -
    have "(2::rat) powi (E - 53 + 1) = 2 powi (E - 53) * 2" by (rule power_int_add_1) simp
    then show ?thesis by (simp add: u_def)
  qed
  have above: "2 powi (E - 53) < q"
  proof (cases "- 1022 \<le> binade q")
    case True
    then have "E = binade q" by (simp add: E_def)
    then have "(2::rat) powi (E - 53) < 2 powi binade q"
      by (intro power_int_strict_increasing) simp_all
    then show ?thesis using binade_bounds(1) [OF qpos] by linarith
  next
    case False
    then have E: "E = - 1022" by (simp add: E_def)
    have p: "(2::rat) powi (- 1075) = 1 / 2 ^ 1075" using two_powi_neg [of 1075] by simp
    have "rat_of_int s < rat_of_int (t * 2 ^ 1075)" using big by (simp only: of_int_less_iff)
    then have "rat_of_int s < of_int t * 2 ^ 1075" by simp
    then have "1 / 2 ^ 1075 < q"
      using spos by (simp add: q_def pos_less_divide_eq pos_divide_less_eq mult.commute)
    then show ?thesis by (simp add: E p)
  qed
  have "1 / 2 < q / u"
    using above upos uh by (simp add: pos_less_divide_eq)
  then have "rat_of_int 0 + 1 / 2 < q / u" by simp
  then have "0 < R" unfolding R_def by (rule round_half_even_gt)
  then have pos: "0 < binary64 q" using upos by (simp add: rf)
  have le: "binary64 q \<le> 1"
    unfolding binary64_def using qpos q1 by (intro round_float_le_one) simp_all
  have "\<lceil>binary64 q\<rceil> = 1" using pos le by (intro ceiling_unique) simp_all
  moreover have "\<bar>binary64 q\<bar> < 2 ^ 1024"
  proof -
    have "(1::rat) < 2 ^ 1024" by (rule one_less_power) simp_all
    then show ?thesis using pos le by linarith
  qed
  ultimately show ?thesis by (simp add: q_def)
qed

lemma binary64_underflow: "binary64 (rat_of_int 2 / rat_of_int (2 ^ 1076)) = 0"
proof -
  define x where "x = (2::rat) powi (- 1075)"
  have x: "rat_of_int 2 / rat_of_int (2 ^ 1076) = x"
  proof -
    have "(2::rat) powi (1 - 1076) = 2 powi 1 / 2 powi 1076" by (rule power_int_diff) simp
    then show ?thesis by (simp add: x_def)
  qed
  have xpos: "0 < x" by (simp add: x_def)
  have "x < 2 powi (- 1075 + 1)"
    unfolding x_def by (rule power_int_strict_increasing) simp_all
  then have b: "binade x = - 1075" by (intro binade_unique) (simp_all add: x_def)
  have "x / 2 powi (- 1074) = 2 powi (- 1075 - (- 1074))"
    unfolding x_def by (rule power_int_diff [symmetric]) simp
  then have h: "x / 2 powi (- 1074) = 1 / 2" by simp
  have "\<lfloor>(1::rat) / 2\<rfloor> = 0" by (rule floor_unique) simp_all
  then have r: "round_half_even (1 / 2) = 0" by (simp add: round_half_even_def Let_def)
  have m: "max (binade x) (- 1022) - int 53 + 1 = - 1074" by (simp add: b)
  show ?thesis
    unfolding x binary64_def round_float_gen [OF xpos] m h r by simp
qed


lemma n_chunks_self:
  assumes "1 \<le> t"
  shows "n_chunks t t = Inr 1"
proof -
  have q: "rat_of_int t / rat_of_int t = rat_of_int 1 / rat_of_int 1" using assms by simp
  have "\<lceil>round_float 53 (- 1022) (rat_of_int 1 / rat_of_int 1)\<rceil> = \<lceil>rat_of_int 1 / rat_of_int 1\<rceil>
      \<and> \<bar>round_float 53 (- 1022) (rat_of_int 1 / rat_of_int 1)\<bar> < 2 ^ 1024"
    by (rule double_quotient_ceiling) simp_all
  then show ?thesis
    using assms unfolding n_chunks_def py_true_divide_def binary64_def q by (simp add: Let_def)
qed

section \<open>Properties of the loader\<close>


lemma py_slice_in_range:
  assumes "0 \<le> lo" "lo \<le> hi"
  shows "py_slice a lo hi = take (nat (min hi (int (length a)) - lo)) (drop (nat lo) a)"
  using assms by (auto simp add: py_slice_def slice_bound_def Let_def min_def nat_diff_distrib)




lemma select_chunk_wraps:
  assumes n: "n_chunks (int (length faces)) sz = Inr n" and i: "n \<le> i"
  shows "select_chunk faces (Some sz) i = select_chunk faces (Some sz) (i mod n)"
proof -
  consider "n = 0" | "0 < n" | "n < 0" by linarith
  then show ?thesis
  proof cases
    case 1
    then show ?thesis by simp
  next
    case 2
    then have "i mod n < n" by simp
    then show ?thesis using n 2 i by (simp add: select_chunk_def Let_def)
  next
    case 3
    then have "n < i mod n" by (rule neg_mod_bound)
    then have "n \<le> i mod n" by simp
    then show ?thesis using n 3 i by (simp add: select_chunk_def Let_def)
  qed
qed

text \<open>
  Claim C4. Whenever the number of chunks \<open>n\<close> is defined (the chunk size is not \<open>0\<close>),
  a chunk index \<open>i \<ge> n\<close> gives what the index \<open>i mod n\<close> gives, for a chunk size of
  either sign: the same rows or the same exception. \<open>mod\<close> on \<open>int\<close> is Python's \<^verbatim>\<open>%\<close>
  for a divisor other than \<open>0\<close>. For \<open>n = 0\<close> Python has no index \<open>i mod n\<close> (in HOL it
  is \<open>i\<close> itself), and the call with the index \<open>i\<close> raises at \<^verbatim>\<open>offset % n_chunks\<close>.
\<close>

theorem load_data_wraps:
  assumes "n_chunks (int (length faces)) sz = Inr n" and "n \<le> i"
  shows "load_data to_unit faces (Some sz) i = load_data to_unit faces (Some sz) (i mod n)
       \<and> (n = 0 \<longrightarrow> load_data to_unit faces (Some sz) i = Inl ZeroDivisionError)"
proof -
  have w: "select_chunk faces (Some sz) (i mod n) = select_chunk faces (Some sz) i"
    by (rule select_chunk_wraps [OF assms, symmetric])
  have z: "n = 0 \<longrightarrow> select_chunk faces (Some sz) i = Inl ZeroDivisionError"
    using assms by (simp add: select_chunk_def Let_def)
  show ?thesis
    unfolding load_data_def w using z by simp
qed

theorem load_data_wraps_witness:
  "n_chunks (int (length [[1], [2], [3], [4], [5 :: 8 word]])) 2 = Inr 3 \<and> (3::int) \<le> 7
   \<and> load_data unat [[1], [2], [3], [4], [5]] (Some 2) 7 = Inr [[3], [4]]
   \<and> load_data unat [[1], [2], [3], [4], [5]] (Some 2) (7 mod 3) = Inr [[3], [4]]"
proof -
  have c: "n_chunks (int (length [[1], [2], [3], [4], [5 :: 8 word]])) 2 = Inr 3"
    by (simp add: n_chunks_exact ceiling_eq_iff)
  have r: "load_data unat [[1], [2], [3], [4], [5]] (Some 2) (7 mod 3) = Inr [[3], [4]]"
    by (simp add: load_data_def select_chunk_def n_chunks_exact py_slice_def slice_bound_def Let_def
        ceiling_eq_iff)
  show ?thesis
    using load_data_wraps [of "[[1], [2], [3], [4], [5]]" 2 3 7 unat] c r by simp
qed

text \<open>
  Claim C10, amended. When the stored array is not empty and the requested chunk size
  \<open>s\<close> exceeds its number of rows while staying below \<open>2^1075\<close> times that number
  (so that the \<^verbatim>\<open>binary64\<close> quotient is not rounded to zero), there is one chunk, the
  call with offset \<open>0\<close> does not raise, takes the branch of the last chunk and returns all
  the rows, normalized.
\<close>

theorem load_data_oversized_chunk:
  fixes faces :: "image_row list"
  assumes "faces \<noteq> []" and "int (length faces) < s" and "s < int (length faces) * 2 ^ 1075"
  shows "n_chunks (int (length faces)) s = Inr 1
       \<and> select_chunk faces (Some s) 0 = Inr faces
       \<and> load_data to_unit faces (Some s) 0 = Inr (map (map to_unit) faces)"
proof -
  have t: "1 \<le> int (length faces)" using assms(1) by (cases faces) simp_all
  have s: "s \<noteq> 0" using assms(2) by simp
  have n: "n_chunks (int (length faces)) s = Inr 1"
    using double_small_quotient [OF t assms(2) assms(3)] s
    by (simp add: n_chunks_def py_true_divide_def Let_def)
  have sel: "select_chunk faces (Some s) 0 = Inr faces"
    using n by (simp add: select_chunk_def Let_def py_slice_from_def py_slice_def slice_bound_def)
  show ?thesis using n sel by (simp add: load_data_def)
qed

theorem load_data_oversized_chunk_witness:
  "[[1], [2 :: 8 word]] \<noteq> [] \<and> int (length [[1], [2 :: 8 word]]) < 5
   \<and> (5::int) < int (length [[1], [2 :: 8 word]]) * 2 ^ 1075
   \<and> load_data unat [[1], [2]] (Some 5) 0 = Inr [[1], [2]]"
  using load_data_oversized_chunk [of "[[1], [2]]" 5 unat] by simp

text \<open>
  Without the first or the last hypothesis the statement fails. For an empty stored
  array and a chunk size of \<open>1\<close> the number of chunks is \<open>0\<close>, the offset \<open>0\<close> counts as out
  of range and \<^verbatim>\<open>offset % n_chunks\<close> raises. For two rows and a chunk size of \<open>2^1076\<close>
  the quotient \<open>2 / 2^1076\<close> is rounded to \<open>0.0\<close>, and the call raises in the same way.
\<close>

theorem load_data_oversized_chunk_counterexample:
  "int (length ([] :: image_row list)) < 1
   \<and> n_chunks (int (length ([] :: image_row list))) 1 = Inr 0
   \<and> load_data unat [] (Some 1) 0 = Inl ZeroDivisionError
   \<and> [[1], [2 :: 8 word]] \<noteq> []
   \<and> int (length [[1], [2 :: 8 word]]) < 2 ^ 1076
   \<and> n_chunks (int (length [[1], [2 :: 8 word]])) (2 ^ 1076) = Inr 0
   \<and> load_data unat [[1], [2]] (Some (2 ^ 1076)) 0 = Inl ZeroDivisionError"
proof -
  have e: "n_chunks 0 1 = Inr 0"
    by (simp add: n_chunks_def py_true_divide_def binary64_def Let_def)
  have u: "n_chunks 2 (2 ^ 1076) = Inr 0"
    unfolding n_chunks_def py_true_divide_def binary64_underflow by (simp add: Let_def)
  show ?thesis
    using e u by (simp add: load_data_def select_chunk_def Let_def)
qed

section \<open>The round trip through the container\<close>

lemma normalize_byte_near:
  "0 \<le> normalize_byte b \<and> normalize_byte b \<le> 1
   \<and> \<bar>normalize_byte b * 255 - rat_of_int (uint b)\<bar> < 1 / 2
   \<and> \<bar>float16_multiply (normalize_byte b) (binary16 255) - rat_of_int (uint b)\<bar> < 1 / 2"
proof -
  have u: "unat b \<le> 255" using unsigned_less [of b, where ?'a = nat] by simp
  have c: "binary16 255 = 255" using binary16_of_nat [of 255] by simp
  have i: "rat_of_int (uint b) = rat_of_nat (unat b)" by simp
  show ?thesis
    unfolding normalize_byte_alt float16_multiply_def c i
    using byte_round_trip [OF u] by simp
qed

text \<open>
  Claim C9. The container gives back the array written to it, and every value that
  \<^verbatim>\<open>load_data\<close> returns is \<open>normalize_byte\<close> of a stored byte. Every such value lies
  between \<open>0\<close> and \<open>1\<close>, and multiplied by \<open>255\<close> it is less than one half away from the
  byte, so that rounding the product gives the byte back: with ties to even or ties
  upward, and with the product taken exactly or in \<^verbatim>\<open>float16\<close>. Hence whatever chunk a
  call returns, multiplying it by \<open>255\<close> and rounding reconstructs the selected rows of
  the array that was written; and loading a non-empty array whole (as the constructor
  does, with the number of rows as the size) returns all of it.
\<close>

theorem float16_round_trip:
  fixes faces :: "image_row list"
  shows "(\<forall>b. 0 \<le> normalize_byte b \<and> normalize_byte b \<le> 1
              \<and> round_half_even (normalize_byte b * 255) = uint b
              \<and> round (normalize_byte b * 255) = uint b
              \<and> round_half_even (float16_multiply (normalize_byte b) (binary16 255)) = uint b)
       \<and> (\<forall>sz offset chunk.
             load_data normalize_byte faces sz offset = Inr chunk \<longrightarrow>
               (\<forall>row\<in>set chunk. \<forall>v\<in>set row. 0 \<le> v \<and> v \<le> 1)
               \<and> select_chunk faces sz offset
                   = Inr (map (map (\<lambda>v. word_of_int (round_half_even (v * 255)))) chunk))
       \<and> (faces \<noteq> [] \<longrightarrow>
             load_data normalize_byte faces (Some (int (length faces))) 0
               = Inr (map (map normalize_byte) faces))"
proof -
  have bytes: "0 \<le> normalize_byte b \<and> normalize_byte b \<le> 1
              \<and> round_half_even (normalize_byte b * 255) = uint b
              \<and> round (normalize_byte b * 255) = uint b
              \<and> round_half_even (float16_multiply (normalize_byte b) (binary16 255)) = uint b"
    for b :: "8 word"
  proof -
    note n = normalize_byte_near [of b]
    have 1: "round_half_even (normalize_byte b * 255) = uint b"
      using n by (intro round_half_even_near) simp
    have 2: "round_half_even (float16_multiply (normalize_byte b) (binary16 255)) = uint b"
      using n by (intro round_half_even_near) simp
    have 3: "round (normalize_byte b * 255) = uint b"
    proof (rule round_unique)
      show "normalize_byte b * 255 - 1 / 2 < rat_of_int (uint b)" using n by linarith
      show "rat_of_int (uint b) \<le> normalize_byte b * 255 + 1 / 2" using n by linarith
    qed
    show ?thesis using n 1 2 3 by simp
  qed
  have undo: "word_of_int (round_half_even (normalize_byte b * 255)) = b" for b :: "8 word"
    using bytes [of b] by simp
  have any: "(\<forall>row\<in>set chunk. \<forall>v\<in>set row. 0 \<le> v \<and> v \<le> 1)
               \<and> select_chunk faces sz offset
                   = Inr (map (map (\<lambda>v. word_of_int (round_half_even (v * 255)))) chunk)"
    if l: "load_data normalize_byte faces sz offset = Inr chunk" for sz offset chunk
  proof -
    from l obtain rows where r: "select_chunk faces sz offset = Inr rows"
      and c: "chunk = map (map normalize_byte) rows"
      by (auto simp add: load_data_def split: sum.splits)
    have "map (map (\<lambda>v. word_of_int (round_half_even (v * 255)))) chunk = rows"
      unfolding c by (simp add: comp_def undo)
    moreover have "\<forall>row\<in>set chunk. \<forall>v\<in>set row. 0 \<le> v \<and> v \<le> 1"
      unfolding c using bytes by auto
    ultimately show ?thesis using r by simp
  qed
  have whole: "load_data normalize_byte faces (Some (int (length faces))) 0
               = Inr (map (map normalize_byte) faces)" if "faces \<noteq> []"
  proof -
    have t: "1 \<le> int (length faces)" using that by (cases faces) simp_all
    have sel: "select_chunk faces (Some (int (length faces))) 0 = Inr faces"
      using n_chunks_self [OF t]
      by (simp add: select_chunk_def Let_def py_slice_from_def py_slice_def slice_bound_def)
    show ?thesis using sel by (simp add: load_data_def)
  qed
  show ?thesis using bytes any whole by blast
qed

text \<open>
  The values of two bytes, computed from the definitions: \<open>1\<close> becomes \<open>257/65536\<close> and
  \<open>128\<close> becomes \<open>257/512\<close>.
\<close>

lemma normalize_byte_values:
  shows "normalize_byte 1 = 257 / 65536" and "normalize_byte 128 = 257 / 512"
  by code_simp+

theorem float16_round_trip_witness:
  "[[1, 128 :: 8 word]] \<noteq> []
   \<and> load_data normalize_byte [[1, 128]] (Some 1) 0 = Inr [[257 / 65536, 257 / 512]]
   \<and> select_chunk [[1, 128 :: 8 word]] (Some 1) 0
       = Inr (map (map (\<lambda>v. word_of_int (round_half_even (v * 255)))) [[257 / 65536, 257 / 512]])
   \<and> round_half_even (normalize_byte 128 * 255) = 128
   \<and> normalize_byte 128 \<le> 1"
proof -
  have h: "[[1, 128 :: 8 word]] \<noteq> []" by simp
  note th = float16_round_trip [of "[[1, 128]]"]
  have "load_data normalize_byte [[1, 128]] (Some 1) 0 = Inr [[normalize_byte 1, normalize_byte 128]]"
    using conjunct2 [OF conjunct2 [OF th]] by simp
  also have "\<dots> = Inr [[257 / 65536, 257 / 512]]"
    by (simp only: normalize_byte_values)
  finally have c1: "load_data normalize_byte [[1, 128]] (Some 1) 0 = Inr [[257 / 65536, 257 / 512]]" .
  have c4: "select_chunk [[1, 128 :: 8 word]] (Some 1) 0
       = Inr (map (map (\<lambda>v. word_of_int (round_half_even (v * 255)))) [[257 / 65536, 257 / 512]])"
    using conjunct1 [OF conjunct2 [OF th]] c1 by blast
  note b = spec [OF conjunct1 [OF th], of 128]
  have c2: "round_half_even (normalize_byte 128 * 255) = 128" using b by simp
  have c3: "normalize_byte 128 \<le> 1" using b by simp
  show ?thesis using h c1 c2 c3 c4 by blast
qed


section \<open>Properties of the batch iterator\<close>

text \<open>
  Claim C8, amended. The construction succeeds exactly when the batch size is not \<open>0\<close>
  and is at most the number of rows of the feature array. A batch size above the number
  of rows fails the assertion, and a batch size of \<open>0\<close> raises at the floor division.
\<close>

theorem DataIterator_init_succeeds_iff:
  "((\<exists>it. DataIterator_init x y b loff = Inr it) \<longleftrightarrow> b \<noteq> 0 \<and> b \<le> int (length x))
   \<and> (int (length x) < b \<longrightarrow> DataIterator_init x y b loff = Inl AssertionError)
   \<and> (b = 0 \<longrightarrow> DataIterator_init x y b loff = Inl ZeroDivisionError)"
  by (auto simp add: DataIterator_init_def Let_def)

theorem DataIterator_init_succeeds_iff_witness:
  "(\<exists>it. DataIterator_init [1, 2, 3 :: nat] [True, False, True] 2 False = Inr it)
   \<and> DataIterator_init [1, 2, 3 :: nat] [True, False, True] 4 False = Inl AssertionError"
  using DataIterator_init_succeeds_iff [of "[1, 2, 3 :: nat]" "[True, False, True]" 2 False]
    DataIterator_init_succeeds_iff [of "[1, 2, 3 :: nat]" "[True, False, True]" 4 False]
  by simp

text \<open>
  A batch size of \<open>0\<close> is at most the number of rows, and the construction fails.
\<close>

theorem DataIterator_init_zero_counterexample:
  "(0::int) \<le> int (length [1, 2, 3 :: nat])
   \<and> DataIterator_init [1, 2, 3 :: nat] [True, False, True] 0 False = Inl ZeroDivisionError"
  by (simp add: DataIterator_init_def)

lemma py_slice_window:
  assumes "0 \<le> lo" and "0 \<le> b" and "lo + b \<le> int (length a)"
  shows "py_slice a lo (lo + b) = take (nat b) (drop (nat lo) a)"
proof -
  have "min (lo + b) (int (length a)) - lo = b" using assms by simp
  then show ?thesis using assms by (simp add: py_slice_in_range)
qed

lemma shuffled_arange_set:
  assumes "shuffled_arange n p"
  shows "set p = {0..<nat n}" and "length p = nat n"
proof -
  have s: "sort p = [0..<nat n]" using assms by (simp add: shuffled_arange_def)
  have "set (sort p) = {0..<nat n}" unfolding s by simp
  then show "set p = {0..<nat n}" by simp
  have "length (sort p) = nat n" unfolding s by simp
  then show "length p = nat n" by simp
qed

lemma fancy_index_shuffled:
  assumes "shuffled_arange (int (length a)) p"
  shows "fancy_index a p = Inr (map (\<lambda>i. a ! i) p)"
  using shuffled_arange_set(1) [OF assms] by (simp add: fancy_index_def list_all_iff)

lemma DataIterator_init_inv:
  assumes "DataIterator_init x y b loff = Inr it" and "1 \<le> b" and "loff \<or> length y = length x"
  shows "iter_inv it" and "self_x it = x" and "batch_size it = b" and "pointer it = 0"
    and "self_y it = (if loff then None else Some y)" and "num_examples it = int (length x)"
    and "num_batches it = int (length x) div b" and "label_off it = loff"
  using assms by (auto simp add: DataIterator_init_def Let_def iter_inv_def split: if_splits)

lemma next_batch_no_shuffle:
  assumes inv: "iter_inv it" and fit: "pointer it + batch_size it \<le> num_examples it"
  shows "next_batch p it =
           Inr ((take (nat (batch_size it)) (drop (nat (pointer it)) (self_x it)),
                 map_option (\<lambda>l. take (nat (batch_size it)) (drop (nat (pointer it)) l)) (self_y it)),
                it\<lparr>pointer := pointer it + batch_size it\<rparr>)"
proof -
  have w: "\<And>a::'c list. length a = length (self_x it) \<Longrightarrow>
      py_slice a (pointer it) (pointer it + batch_size it)
        = take (nat (batch_size it)) (drop (nat (pointer it)) a)"
    using inv fit by (intro py_slice_window) (simp_all add: iter_inv_def)
  show ?thesis
  proof (cases "self_y it")
    case None
    then have "label_off it" using inv by (simp add: iter_inv_def)
    then show ?thesis using fit None w [of "self_x it"] by (simp add: next_batch_def Let_def)
  next
    case (Some l)
    then have "\<not> label_off it" and "length l = length (self_x it)"
      using inv by (simp_all add: iter_inv_def)
    then show ?thesis using fit Some w [of "self_x it"] w [of l]
      by (simp add: next_batch_def Let_def)
  qed
qed

lemma next_batch_shuffle:
  assumes inv: "iter_inv it" and over: "pointer it + batch_size it > num_examples it"
    and p: "shuffled_arange (num_examples it) p"
  shows "next_batch p it =
           Inr ((take (nat (batch_size it)) (map (\<lambda>i. self_x it ! i) p),
                 map_option (\<lambda>l. take (nat (batch_size it)) (map (\<lambda>i. l ! i) p)) (self_y it)),
                it\<lparr>self_x := map (\<lambda>i. self_x it ! i) p,
                   self_y := map_option (\<lambda>l. map (\<lambda>i. l ! i) p) (self_y it),
                   pointer := batch_size it\<rparr>)"
proof -
  have n: "num_examples it = int (length (self_x it))" using inv by (simp add: iter_inv_def)
  have lp: "length p = length (self_x it)" using shuffled_arange_set(2) [OF p] n by simp
  have b: "0 \<le> batch_size it" "batch_size it \<le> int (length p)"
    using inv lp by (simp_all add: iter_inv_def)
  have w: "py_slice a 0 (batch_size it) = take (nat (batch_size it)) a"
    if "length a = length p" for a :: "'c list"
    using b that py_slice_window [of 0 "batch_size it" a] by simp
  have fx: "fancy_index (self_x it) p = Inr (map (\<lambda>i. self_x it ! i) p)"
    using p n by (simp add: fancy_index_shuffled)
  show ?thesis
  proof (cases "self_y it")
    case None
    then have "label_off it" using inv by (simp add: iter_inv_def)
    then show ?thesis using over None fx w [of "map (\<lambda>i. self_x it ! i) p"]
      by (simp add: next_batch_def reshuffle_def Let_def)
  next
    case (Some l)
    then have lo: "\<not> label_off it" and ll: "length l = length (self_x it)"
      using inv by (simp_all add: iter_inv_def)
    have fy: "fancy_index l p = Inr (map (\<lambda>i. l ! i) p)"
      using p n ll by (simp add: fancy_index_shuffled)
    show ?thesis using over Some lo fx fy
        w [of "map (\<lambda>i. self_x it ! i) p"] w [of "map (\<lambda>i. l ! i) p"]
      by (simp add: next_batch_def reshuffle_def Let_def)
  qed
qed

lemma next_batch_inv:
  assumes inv: "iter_inv it" and p: "shuffled_arange (num_examples it) p"
  shows "\<exists>batch it'. next_batch p it = Inr (batch, it') \<and> iter_inv it'
           \<and> int (length (fst batch)) = batch_size it
           \<and> (\<forall>l. snd batch = Some l \<longrightarrow> int (length l) = batch_size it)
           \<and> batch_size it' = batch_size it \<and> num_examples it' = num_examples it"
proof (cases "pointer it + batch_size it \<le> num_examples it")
  case True
  have "iter_inv (it\<lparr>pointer := pointer it + batch_size it\<rparr>)"
    using inv True by (simp add: iter_inv_def split: option.splits)
  moreover have "int (length (take (nat (batch_size it)) (drop (nat (pointer it)) a))) = batch_size it"
    if "length a = length (self_x it)" for a :: "'c list"
  proof -
    have "0 \<le> pointer it" and "1 \<le> batch_size it"
      and "pointer it + batch_size it \<le> int (length (self_x it))"
      using inv True by (simp_all add: iter_inv_def)
    then have "int (min (length (self_x it) - nat (pointer it)) (nat (batch_size it)))
                 = batch_size it"
      by arith
    then show ?thesis using that by simp
  qed
  ultimately show ?thesis
    using next_batch_no_shuffle [OF inv True, of p] inv
    by (auto simp add: iter_inv_def split: option.splits)
next
  case False
  then have over: "pointer it + batch_size it > num_examples it" by simp
  have lp: "int (length p) = num_examples it"
    using shuffled_arange_set(2) [OF p] inv by (simp add: iter_inv_def)
  have "iter_inv (it\<lparr>self_x := map (\<lambda>i. self_x it ! i) p,
                   self_y := map_option (\<lambda>l. map (\<lambda>i. l ! i) p) (self_y it),
                   pointer := batch_size it\<rparr>)"
    using inv lp by (auto simp add: iter_inv_def split: option.splits)
  moreover have "int (length (take (nat (batch_size it)) (map f p))) = batch_size it"
    for f :: "nat \<Rightarrow> 'c"
  proof -
    have "1 \<le> batch_size it" and "batch_size it \<le> int (length p)"
      using inv lp by (simp_all add: iter_inv_def)
    then have "int (min (length p) (nat (batch_size it))) = batch_size it"
      by arith
    then show ?thesis by simp
  qed
  ultimately show ?thesis
    using next_batch_shuffle [OF inv over p]
    by (auto split: option.splits)
qed

lemma next_batches_total:
  assumes "iter_inv it" and "\<forall>j. shuffled_arange (num_examples it) (draw j)"
  shows "\<exists>bs it'. next_batches draw k it = Inr (bs, it') \<and> iter_inv it' \<and> length bs = k
           \<and> (\<forall>batch\<in>set bs. int (length (fst batch)) = batch_size it
                 \<and> (\<forall>l. snd batch = Some l \<longrightarrow> int (length l) = batch_size it))
           \<and> batch_size it' = batch_size it \<and> num_examples it' = num_examples it"
  using assms
proof (induction k arbitrary: it draw)
  case 0
  then show ?case by simp
next
  case (Suc k)
  from next_batch_inv [OF Suc.prems(1), of "draw 0"] Suc.prems(2)
  obtain batch it1 where s1: "next_batch (draw 0) it = Inr (batch, it1)" and i1: "iter_inv it1"
    and r1: "int (length (fst batch)) = batch_size it"
      "\<forall>l. snd batch = Some l \<longrightarrow> int (length l) = batch_size it"
    and e1: "batch_size it1 = batch_size it" "num_examples it1 = num_examples it"
    by blast
  have "\<forall>j. shuffled_arange (num_examples it1) (draw (Suc j))"
    using Suc.prems(2) e1 by simp
  from Suc.IH [OF i1 this]
  obtain bs it2 where s2: "next_batches (\<lambda>j. draw (Suc j)) k it1 = Inr (bs, it2)"
    and i2: "iter_inv it2" and l2: "length bs = k"
    and r2: "\<forall>batch\<in>set bs. int (length (fst batch)) = batch_size it1
                 \<and> (\<forall>l. snd batch = Some l \<longrightarrow> int (length l) = batch_size it1)"
    and e2: "batch_size it2 = batch_size it1" "num_examples it2 = num_examples it1"
    by blast
  have "next_batches draw (Suc k) it = Inr (batch # bs, it2)"
    using s1 s2 by simp
  then show ?case using i2 l2 r1 r2 e1 e2 by auto
qed

lemma next_batches_snoc:
  "next_batches draw (Suc k) it =
     (case next_batches draw k it of
        Inl e \<Rightarrow> Inl e
      | Inr (bs, it') \<Rightarrow>
          (case next_batch (draw k) it' of
             Inl e \<Rightarrow> Inl e
           | Inr (b, it'') \<Rightarrow> Inr (bs @ [b], it'')))"
proof (induction k arbitrary: draw it)
  case 0
  show ?case by (simp split: sum.splits prod.splits)
next
  case (Suc k)
  show ?case
  proof (cases "next_batch (draw 0) it")
    case (Inl e)
    then show ?thesis by simp
  next
    case (Inr r)
    obtain b it1 where r: "r = (b, it1)" by (cases r)
    show ?thesis
      using Inr r Suc.IH [of "\<lambda>j. draw (Suc j)" it1]
      by (auto split: sum.splits prod.splits)
  qed
qed

lemma next_batches_no_shuffle:
  assumes "iter_inv it" and "pointer it + int k * batch_size it \<le> num_examples it"
  shows "next_batches draw k it =
           Inr (map (\<lambda>j. (take (nat (batch_size it))
                              (drop (nat (pointer it + int j * batch_size it)) (self_x it)),
                           map_option (\<lambda>l. take (nat (batch_size it))
                              (drop (nat (pointer it + int j * batch_size it)) l)) (self_y it)))
                    [0..<k],
                it\<lparr>pointer := pointer it + int k * batch_size it\<rparr>)"
  using assms
proof (induction k arbitrary: it draw)
  case 0
  then show ?case by simp
next
  case (Suc k)
  let ?it1 = "it\<lparr>pointer := pointer it + batch_size it\<rparr>"
  have b: "1 \<le> batch_size it" using Suc.prems(1) by (simp add: iter_inv_def)
  have "0 \<le> int k * batch_size it" using b by simp
  then have fit: "pointer it + batch_size it \<le> num_examples it"
    using Suc.prems(2) by (simp add: algebra_simps)
  have s1: "next_batch (draw 0) it =
           Inr ((take (nat (batch_size it)) (drop (nat (pointer it)) (self_x it)),
                 map_option (\<lambda>l. take (nat (batch_size it)) (drop (nat (pointer it)) l)) (self_y it)),
                ?it1)"
    by (rule next_batch_no_shuffle [OF Suc.prems(1) fit])
  have i1: "iter_inv ?it1"
    using Suc.prems(1) fit by (simp add: iter_inv_def split: option.splits)
  have f1: "pointer ?it1 + int k * batch_size ?it1 \<le> num_examples ?it1"
    using Suc.prems(2) by (simp add: algebra_simps)
  have s2: "next_batches (\<lambda>j. draw (Suc j)) k ?it1 =
           Inr (map (\<lambda>j. (take (nat (batch_size ?it1))
                              (drop (nat (pointer ?it1 + int j * batch_size ?it1)) (self_x ?it1)),
                           map_option (\<lambda>l. take (nat (batch_size ?it1))
                              (drop (nat (pointer ?it1 + int j * batch_size ?it1)) l)) (self_y ?it1)))
                    [0..<k],
                ?it1\<lparr>pointer := pointer ?it1 + int k * batch_size ?it1\<rparr>)"
    by (rule Suc.IH [OF i1 f1])
  show ?case
    apply (subst next_batches.simps(2))
    apply (subst s1)
    apply (simp only: sum.case prod.case)
    apply (subst s2)
    apply (simp add: map_upt_Suc algebra_simps del: upt_Suc)
    done
qed

lemma sh100: "shuffled_arange 100 [0..<100]"
  by (simp add: shuffled_arange_def sorted_sort_id)

lemma chunks_concat:
  "concat (map (\<lambda>j. take b (drop (j * b) a)) [0..<k]) = take (k * b) a"
proof (induction k)
  case 0
  show ?case by simp
next
  case (Suc k)
  have "take (k * b + b) a = take (k * b) a @ take b (drop (k * b) a)"
    by (rule take_add)
  then show ?case using Suc.IH by (simp add: add.commute)
qed

lemma next_batch_fields:
  assumes "next_batch p it = Inr (batch, it')"
  shows "num_batches it' = num_batches it \<and> batch_size it' = batch_size it
       \<and> num_examples it' = num_examples it \<and> label_off it' = label_off it"
  using assms
  by (auto simp add: next_batch_def reshuffle_def Let_def
      split: if_splits sum.splits option.splits)

lemma next_batches_fields:
  assumes "next_batches draw k it = Inr (bs, it')"
  shows "num_batches it' = num_batches it \<and> batch_size it' = batch_size it
       \<and> num_examples it' = num_examples it \<and> label_off it' = label_off it"
  using assms
proof (induction k arbitrary: draw it bs)
  case 0
  then show ?case by simp
next
  case (Suc k)
  from Suc.prems obtain b it1 bs1 where s1: "next_batch (draw 0) it = Inr (b, it1)"
    and s2: "next_batches (\<lambda>j. draw (Suc j)) k it1 = Inr (bs1, it')"
    by (auto split: sum.splits prod.splits)
  show ?case using next_batch_fields [OF s1] Suc.IH [OF s2] by simp
qed

text \<open>
  Claim C1, amended. Take an iterator built with \<open>1 \<le> batch_size \<le> num_examples\<close> (and,
  if it carries labels, as many labels as features), in the state \<open>it\<close> reached after any
  number \<open>k\<close> of calls of \<^verbatim>\<open>next_batch\<close>. None of these calls raises and each of them
  returns exactly \<open>batch_size\<close> rows of features and of labels. The next call returns the
  rows \<open>pointer .. pointer + batch_size - 1\<close> of the stored arrays when
  \<open>pointer + batch_size \<le> num_examples\<close>, and advances the pointer. Otherwise it
  rearranges both arrays by the one arrangement drawn in this call, returns the first
  \<open>batch_size\<close> rows of the rearranged arrays and leaves the pointer at \<open>batch_size\<close>.
  For \<open>100\<close> rows and a batch size of \<open>30\<close>, the batches of four calls are rows \<open>0..29\<close>,
  \<open>30..59\<close>, \<open>60..89\<close> of the original arrays and the first \<open>30\<close> rows of the arrays as
  rearranged by the fourth call, the only call that shuffles; the pointer is then \<open>30\<close>.
\<close>

theorem next_batch_contract:
  assumes init: "DataIterator_init x y b loff = Inr it0"
    and pos: "1 \<le> b"
    and lab: "loff \<or> length y = length x"
    and draws: "\<forall>j. shuffled_arange (int (length x)) (draw j)"
  shows "(\<exists>bs it. next_batches draw k it0 = Inr (bs, it) \<and> length bs = k
            \<and> (\<forall>batch\<in>set bs. int (length (fst batch)) = b
                  \<and> (\<forall>l. snd batch = Some l \<longrightarrow> int (length l) = b))
            \<and> (pointer it + b \<le> int (length x) \<longrightarrow>
                 next_batch (draw k) it =
                   Inr ((take (nat b) (drop (nat (pointer it)) (self_x it)),
                         map_option (\<lambda>l. take (nat b) (drop (nat (pointer it)) l)) (self_y it)),
                        it\<lparr>pointer := pointer it + b\<rparr>))
            \<and> (int (length x) < pointer it + b \<longrightarrow>
                 next_batch (draw k) it =
                   Inr ((take (nat b) (map (\<lambda>i. self_x it ! i) (draw k)),
                         map_option (\<lambda>l. take (nat b) (map (\<lambda>i. l ! i) (draw k))) (self_y it)),
                        it\<lparr>self_x := map (\<lambda>i. self_x it ! i) (draw k),
                           self_y := map_option (\<lambda>l. map (\<lambda>i. l ! i) (draw k)) (self_y it),
                           pointer := b\<rparr>)))
       \<and> (length x = 100 \<and> b = 30 \<longrightarrow>
            next_batches draw 4 it0 =
              Inr ([(take 30 x, map_option (take 30) (self_y it0)),
                    (take 30 (drop 30 x), map_option (\<lambda>l. take 30 (drop 30 l)) (self_y it0)),
                    (take 30 (drop 60 x), map_option (\<lambda>l. take 30 (drop 60 l)) (self_y it0)),
                    (take 30 (map (\<lambda>i. x ! i) (draw 3)),
                     map_option (\<lambda>l. take 30 (map (\<lambda>i. l ! i) (draw 3))) (self_y it0))],
                   it0\<lparr>self_x := map (\<lambda>i. x ! i) (draw 3),
                       self_y := map_option (\<lambda>l. map (\<lambda>i. l ! i) (draw 3)) (self_y it0),
                       pointer := 30\<rparr>))"
proof -
  note i0 = DataIterator_init_inv [OF init pos lab]
  have d0: "\<forall>j. shuffled_arange (num_examples it0) (draw j)"
    using draws i0(6) by simp
  from next_batches_total [OF i0(1) d0, of k]
  obtain bs it where run: "next_batches draw k it0 = Inr (bs, it)" and inv: "iter_inv it"
    and len: "length bs = k"
    and rows: "\<forall>batch\<in>set bs. int (length (fst batch)) = batch_size it0
                 \<and> (\<forall>l. snd batch = Some l \<longrightarrow> int (length l) = batch_size it0)"
    and same: "batch_size it = batch_size it0" "num_examples it = num_examples it0"
    by blast
  have bb: "batch_size it = b" and nn: "num_examples it = int (length x)"
    using same i0 by simp_all
  have stay: "next_batch (draw k) it =
                   Inr ((take (nat b) (drop (nat (pointer it)) (self_x it)),
                         map_option (\<lambda>l. take (nat b) (drop (nat (pointer it)) l)) (self_y it)),
                        it\<lparr>pointer := pointer it + b\<rparr>)"
    if "pointer it + b \<le> int (length x)"
    using next_batch_no_shuffle [OF inv, of "draw k"] that bb nn by simp
  have turn: "next_batch (draw k) it =
                   Inr ((take (nat b) (map (\<lambda>i. self_x it ! i) (draw k)),
                         map_option (\<lambda>l. take (nat b) (map (\<lambda>i. l ! i) (draw k))) (self_y it)),
                        it\<lparr>self_x := map (\<lambda>i. self_x it ! i) (draw k),
                           self_y := map_option (\<lambda>l. map (\<lambda>i. l ! i) (draw k)) (self_y it),
                           pointer := b\<rparr>)"
    if "int (length x) < pointer it + b"
    using next_batch_shuffle [OF inv, of "draw k"] that bb nn draws by simp
  have general: "\<exists>bs it. next_batches draw k it0 = Inr (bs, it) \<and> length bs = k
            \<and> (\<forall>batch\<in>set bs. int (length (fst batch)) = b
                  \<and> (\<forall>l. snd batch = Some l \<longrightarrow> int (length l) = b))
            \<and> (pointer it + b \<le> int (length x) \<longrightarrow>
                 next_batch (draw k) it =
                   Inr ((take (nat b) (drop (nat (pointer it)) (self_x it)),
                         map_option (\<lambda>l. take (nat b) (drop (nat (pointer it)) l)) (self_y it)),
                        it\<lparr>pointer := pointer it + b\<rparr>))
            \<and> (int (length x) < pointer it + b \<longrightarrow>
                 next_batch (draw k) it =
                   Inr ((take (nat b) (map (\<lambda>i. self_x it ! i) (draw k)),
                         map_option (\<lambda>l. take (nat b) (map (\<lambda>i. l ! i) (draw k))) (self_y it)),
                        it\<lparr>self_x := map (\<lambda>i. self_x it ! i) (draw k),
                           self_y := map_option (\<lambda>l. map (\<lambda>i. l ! i) (draw k)) (self_y it),
                           pointer := b\<rparr>))"
    using run len rows stay turn i0(3) by blast
  have concrete: "next_batches draw 4 it0 =
              Inr ([(take 30 x, map_option (take 30) (self_y it0)),
                    (take 30 (drop 30 x), map_option (\<lambda>l. take 30 (drop 30 l)) (self_y it0)),
                    (take 30 (drop 60 x), map_option (\<lambda>l. take 30 (drop 60 l)) (self_y it0)),
                    (take 30 (map (\<lambda>i. x ! i) (draw 3)),
                     map_option (\<lambda>l. take 30 (map (\<lambda>i. l ! i) (draw 3))) (self_y it0))],
                   it0\<lparr>self_x := map (\<lambda>i. x ! i) (draw 3),
                       self_y := map_option (\<lambda>l. map (\<lambda>i. l ! i) (draw 3)) (self_y it0),
                       pointer := 30\<rparr>)"
    if h: "length x = 100" "b = 30"
  proof -
    let ?it3 = "it0\<lparr>pointer := 90\<rparr>"
    have three: "next_batches draw 3 it0 =
        Inr ([(take 30 x, map_option (take 30) (self_y it0)),
              (take 30 (drop 30 x), map_option (\<lambda>l. take 30 (drop 30 l)) (self_y it0)),
              (take 30 (drop 60 x), map_option (\<lambda>l. take 30 (drop 60 l)) (self_y it0))], ?it3)"
    proof -
      have u3: "[0..<3] = [0, 1, 2 :: nat]" by code_simp
      show ?thesis
        using next_batches_no_shuffle [OF i0(1), of 3 draw] i0 h by (simp add: u3)
    qed
    have inv3: "iter_inv ?it3"
      using i0 h by (simp add: iter_inv_def split: option.splits)
    have over: "pointer ?it3 + batch_size ?it3 > num_examples ?it3"
      using i0 h by simp
    have p3: "shuffled_arange (num_examples ?it3) (draw 3)"
      using draws i0 by simp
    have fourth: "next_batch (draw 3) ?it3 =
        Inr ((take 30 (map (\<lambda>i. x ! i) (draw 3)),
                     map_option (\<lambda>l. take 30 (map (\<lambda>i. l ! i) (draw 3))) (self_y it0)),
                   it0\<lparr>self_x := map (\<lambda>i. x ! i) (draw 3),
                       self_y := map_option (\<lambda>l. map (\<lambda>i. l ! i) (draw 3)) (self_y it0),
                       pointer := 30\<rparr>)"
      using next_batch_shuffle [OF inv3 over p3] i0 h by simp
    have "next_batches draw (Suc 3) it0 = Inr ([(take 30 x, map_option (take 30) (self_y it0)),
                    (take 30 (drop 30 x), map_option (\<lambda>l. take 30 (drop 30 l)) (self_y it0)),
                    (take 30 (drop 60 x), map_option (\<lambda>l. take 30 (drop 60 l)) (self_y it0)),
                    (take 30 (map (\<lambda>i. x ! i) (draw 3)),
                     map_option (\<lambda>l. take 30 (map (\<lambda>i. l ! i) (draw 3))) (self_y it0))],
                   it0\<lparr>self_x := map (\<lambda>i. x ! i) (draw 3),
                       self_y := map_option (\<lambda>l. map (\<lambda>i. l ! i) (draw 3)) (self_y it0),
                       pointer := 30\<rparr>)"
      by (subst next_batches_snoc) (simp only: three fourth sum.case prod.case append.simps)
    then show ?thesis by simp
  qed
  show ?thesis using general concrete by blast
qed


theorem next_batch_contract_witness:
  "DataIterator_init (replicate 100 (0::nat)) (replicate 100 True) 30 False
     = Inr \<lparr>self_x = replicate 100 0, label_off = False, self_y = Some (replicate 100 True),
            batch_size = 30, num_examples = 100, num_batches = 3, pointer = 0\<rparr>
   \<and> (1::int) \<le> 30
   \<and> (\<forall>j::nat. shuffled_arange (int (length (replicate 100 (0::nat)))) [0..<100])
   \<and> (\<exists>bs it. next_batches (\<lambda>j. [0..<100])  4
          \<lparr>self_x = replicate 100 (0::nat), label_off = False,
           self_y = Some (replicate 100 True),
           batch_size = 30, num_examples = 100, num_batches = 3, pointer = 0\<rparr> = Inr (bs, it)
        \<and> length bs = 4 \<and> pointer it = 30
        \<and> (\<forall>batch\<in>set bs. int (length (fst batch)) = 30))"
proof -
  let ?x = "replicate 100 (0::nat)" and ?y = "replicate 100 True"
  let ?it0 = "\<lparr>self_x = ?x, label_off = False, self_y = Some ?y,
            batch_size = 30, num_examples = 100, num_batches = 3, pointer = 0\<rparr>"
  have h1: "DataIterator_init ?x ?y 30 False = Inr ?it0"
    by (simp add: DataIterator_init_def)
  have h2: "(1::int) \<le> 30" by simp
  have h3: "False \<or> length ?y = length ?x" by simp
  have h4: "\<forall>j::nat. shuffled_arange (int (length ?x)) ((\<lambda>j. [0..<100]) j)"
    by (simp add: sh100)
  note th = next_batch_contract [OF h1 h2 h3 h4, of 4]
  from th obtain bs it where run: "next_batches (\<lambda>j. [0..<100]) 4 ?it0 = Inr (bs, it)"
    and len: "length bs = 4"
    and rows: "\<forall>batch\<in>set bs. int (length (fst batch)) = 30"
    by blast
  from th have "\<exists>bs'. next_batches (\<lambda>j. [0..<100]) 4 ?it0 =
      Inr (bs', ?it0\<lparr>self_x := map (\<lambda>i. ?x ! i) [0..<100],
                     self_y := map_option (\<lambda>l. map (\<lambda>i. l ! i) [0..<100]) (self_y ?it0),
                     pointer := 30\<rparr>)"
    by simp
  then have "pointer it = 30" using run by auto
  then show ?thesis using h1 h2 h4 run len rows by blast
qed

text \<open>
  With a negative batch size the assertion of the constructor holds, and the first call
  of \<^verbatim>\<open>next_batch\<close> on three rows with batch size \<open>-1\<close> returns the slice \<^verbatim>\<open>[0:-1]\<close>, two
  rows.
\<close>

theorem next_batch_negative_counterexample:
  "DataIterator_init [1, 2, 3 :: nat] [True, False, True] (- 1) False
     = Inr \<lparr>self_x = [1, 2, 3], label_off = False, self_y = Some [True, False, True],
            batch_size = - 1, num_examples = 3, num_batches = - 3, pointer = 0\<rparr>
   \<and> next_batch [2, 0, 1]
        \<lparr>self_x = [1, 2, 3 :: nat], label_off = False, self_y = Some [True, False, True],
         batch_size = - 1, num_examples = 3, num_batches = - 3, pointer = 0\<rparr>
     = Inr (([1, 2], Some [True, False]),
        \<lparr>self_x = [1, 2, 3], label_off = False, self_y = Some [True, False, True],
         batch_size = - 1, num_examples = 3, num_batches = - 3, pointer = - 1\<rparr>)
   \<and> int (length [1, 2 :: nat]) \<noteq> - 1"
  by (simp add: DataIterator_init_def next_batch_def py_slice_def slice_bound_def Let_def)

text \<open>
  Claim C5, amended. For an iterator built with \<open>1 \<le> batch_size \<le> num_examples\<close> (and,
  if it carries labels, as many labels as features), in the state reached after any
  number of calls of \<^verbatim>\<open>next_batch\<close>, one run of \<^verbatim>\<open>iterate\<close> does not raise and yields
  exactly \<open>num_examples div batch_size\<close> batches of \<open>batch_size\<close> rows, the batches of that
  many successive calls of \<^verbatim>\<open>next_batch\<close>. On a fresh iterator over \<open>100\<close> rows with
  batch size \<open>25\<close> it yields the rows \<open>0..24\<close>, \<open>25..49\<close>, \<open>50..74\<close> and \<open>75..99\<close>, which
  put together are the whole array, and the stored array is left as it was: no shuffle
  took place.
\<close>

theorem iterate_contract:
  assumes init: "DataIterator_init x y b loff = Inr it0"
    and pos: "1 \<le> b"
    and lab: "loff \<or> length y = length x"
    and draws: "\<forall>j. shuffled_arange (int (length x)) (draw j)"
    and draws2: "\<forall>j. shuffled_arange (int (length x)) (draw2 j)"
  shows "(\<exists>bs it. next_batches draw k it0 = Inr (bs, it)
            \<and> (\<exists>ys it'. iterate draw2 it = Inr (ys, it')
                  \<and> int (length ys) = int (length x) div b
                  \<and> next_batches draw2 (length ys) it = Inr (ys, it')
                  \<and> (\<forall>batch\<in>set ys. int (length (fst batch)) = b)))
       \<and> (length x = 100 \<and> b = 25 \<longrightarrow>
            iterate draw it0 =
              Inr ([(take 25 x, map_option (take 25) (self_y it0)),
                    (take 25 (drop 25 x), map_option (\<lambda>l. take 25 (drop 25 l)) (self_y it0)),
                    (take 25 (drop 50 x), map_option (\<lambda>l. take 25 (drop 50 l)) (self_y it0)),
                    (take 25 (drop 75 x), map_option (\<lambda>l. take 25 (drop 75 l)) (self_y it0))],
                   it0\<lparr>pointer := 100\<rparr>)
            \<and> take 25 x @ take 25 (drop 25 x) @ take 25 (drop 50 x) @ take 25 (drop 75 x) = x
            \<and> self_x (it0\<lparr>pointer := 100\<rparr>) = x)"
proof -
  note i0 = DataIterator_init_inv [OF init pos lab]
  have d0: "\<forall>j. shuffled_arange (num_examples it0) (draw j)"
    using draws i0(6) by simp
  from next_batches_total [OF i0(1) d0, of k]
  obtain bs it where run: "next_batches draw k it0 = Inr (bs, it)" and inv: "iter_inv it"
    and same: "batch_size it = batch_size it0" "num_examples it = num_examples it0"
    by blast
  have nb: "num_batches it = int (length x) div b"
    using next_batches_fields [OF run] i0 by simp
  have nonneg: "0 \<le> int (length x) div b"
    using pos by (simp add: pos_imp_zdiv_nonneg_iff)
  have d2: "\<forall>j. shuffled_arange (num_examples it) (draw2 j)"
    using draws2 same i0(6) by simp
  from next_batches_total [OF inv d2, of "nat (num_batches it)"]
  obtain ys it' where run2: "next_batches draw2 (nat (num_batches it)) it = Inr (ys, it')"
    and len2: "length ys = nat (num_batches it)"
    and rows2: "\<forall>batch\<in>set ys. int (length (fst batch)) = batch_size it"
    by blast
  have "iterate draw2 it = Inr (ys, it')" using run2 by (simp add: iterate_def)
  moreover have "int (length ys) = int (length x) div b" using len2 nb nonneg by simp
  moreover have "next_batches draw2 (length ys) it = Inr (ys, it')" using run2 len2 by simp
  moreover have "\<forall>batch\<in>set ys. int (length (fst batch)) = b" using rows2 same i0(3) by simp
  ultimately have general: "\<exists>bs it. next_batches draw k it0 = Inr (bs, it)
            \<and> (\<exists>ys it'. iterate draw2 it = Inr (ys, it')
                  \<and> int (length ys) = int (length x) div b
                  \<and> next_batches draw2 (length ys) it = Inr (ys, it')
                  \<and> (\<forall>batch\<in>set ys. int (length (fst batch)) = b))"
    using run by blast
  have concrete: "iterate draw it0 =
              Inr ([(take 25 x, map_option (take 25) (self_y it0)),
                    (take 25 (drop 25 x), map_option (\<lambda>l. take 25 (drop 25 l)) (self_y it0)),
                    (take 25 (drop 50 x), map_option (\<lambda>l. take 25 (drop 50 l)) (self_y it0)),
                    (take 25 (drop 75 x), map_option (\<lambda>l. take 25 (drop 75 l)) (self_y it0))],
                   it0\<lparr>pointer := 100\<rparr>)
            \<and> take 25 x @ take 25 (drop 25 x) @ take 25 (drop 50 x) @ take 25 (drop 75 x) = x
            \<and> self_x (it0\<lparr>pointer := 100\<rparr>) = x"
    if h: "length x = 100" "b = 25"
  proof -
    have u4: "[0..<4] = [0, 1, 2, 3 :: nat]" by code_simp
    have n4: "nat (num_batches it0) = 4" using i0 h by simp
    have "next_batches draw 4 it0 =
              Inr ([(take 25 x, map_option (take 25) (self_y it0)),
                    (take 25 (drop 25 x), map_option (\<lambda>l. take 25 (drop 25 l)) (self_y it0)),
                    (take 25 (drop 50 x), map_option (\<lambda>l. take 25 (drop 50 l)) (self_y it0)),
                    (take 25 (drop 75 x), map_option (\<lambda>l. take 25 (drop 75 l)) (self_y it0))],
                   it0\<lparr>pointer := 100\<rparr>)"
      using next_batches_no_shuffle [OF i0(1), of 4 draw] i0 h by (simp add: u4)
    moreover have "take 25 x @ take 25 (drop 25 x) @ take 25 (drop 50 x) @ take 25 (drop 75 x) = x"
      using chunks_concat [of 25 x 4] h by (simp add: u4)
    ultimately show ?thesis using n4 i0 by (simp add: iterate_def)
  qed
  show ?thesis using general concrete by blast
qed

theorem iterate_contract_witness:
  "DataIterator_init (replicate 100 (0::nat)) (replicate 100 True) 25 False
     = Inr \<lparr>self_x = replicate 100 0, label_off = False, self_y = Some (replicate 100 True),
            batch_size = 25, num_examples = 100, num_batches = 4, pointer = 0\<rparr>
   \<and> (1::int) \<le> 25
   \<and> (\<forall>j::nat. shuffled_arange (int (length (replicate 100 (0::nat)))) [0..<100])
   \<and> (\<exists>ys it. iterate (\<lambda>j. [0..<100])
          \<lparr>self_x = replicate 100 (0::nat), label_off = False,
           self_y = Some (replicate 100 True),
           batch_size = 25, num_examples = 100, num_batches = 4, pointer = 0\<rparr> = Inr (ys, it)
        \<and> length ys = 4 \<and> pointer it = 100 \<and> self_x it = replicate 100 0)"
proof -
  let ?x = "replicate 100 (0::nat)" and ?y = "replicate 100 True"
  let ?it0 = "\<lparr>self_x = ?x, label_off = False, self_y = Some ?y,
            batch_size = 25, num_examples = 100, num_batches = 4, pointer = 0\<rparr>"
  have h1: "DataIterator_init ?x ?y 25 False = Inr ?it0"
    by (simp add: DataIterator_init_def)
  have h2: "(1::int) \<le> 25" by simp
  have h3: "False \<or> length ?y = length ?x" by simp
  have h4: "\<forall>j::nat. shuffled_arange (int (length ?x)) ((\<lambda>j. [0..<100]) j)"
    by (simp add: sh100)
  note th = iterate_contract [OF h1 h2 h3 h4 h4, of 0]
  from th have "\<exists>ys. iterate (\<lambda>j. [0..<100]) ?it0 = Inr (ys, ?it0\<lparr>pointer := 100\<rparr>)
      \<and> length ys = 4"
    by simp
  then show ?thesis using h1 h2 h4 by auto
qed

text \<open>
  With a negative batch size \<^verbatim>\<open>num_batches\<close> is negative and \<^verbatim>\<open>iterate\<close> yields nothing:
  on three rows with batch size \<open>-1\<close> the number of batches is \<open>0\<close>, not \<open>3 div (-1)\<close>.
\<close>

theorem iterate_negative_counterexample:
  "DataIterator_init [1, 2, 3 :: nat] [True, False, True] (- 1) False
     = Inr \<lparr>self_x = [1, 2, 3], label_off = False, self_y = Some [True, False, True],
            batch_size = - 1, num_examples = 3, num_batches = - 3, pointer = 0\<rparr>
   \<and> iterate (\<lambda>j. [2, 0, 1])
        \<lparr>self_x = [1, 2, 3 :: nat], label_off = False, self_y = Some [True, False, True],
         batch_size = - 1, num_examples = 3, num_batches = - 3, pointer = 0\<rparr>
     = Inr ([],
        \<lparr>self_x = [1, 2, 3], label_off = False, self_y = Some [True, False, True],
         batch_size = - 1, num_examples = 3, num_batches = - 3, pointer = 0\<rparr>)
   \<and> int (length ([] :: (nat list \<times> bool list option) list)) \<noteq> 3 div (- 1)"
  by (simp add: DataIterator_init_def iterate_def)

section \<open>Feature and label pairing\<close>

lemma zip_take_subset: "set (zip (take i a) (take j c)) \<subseteq> set (zip a c)"
  by (auto simp add: set_zip)

lemma zip_drop_subset: "set (zip (drop i a) (drop i c)) \<subseteq> set (zip a c)"
  using set_drop_subset [of i "zip a c"] by (simp add: drop_zip)

lemma py_slice_nonneg:
  assumes "0 \<le> s"
  shows "\<exists>k. py_slice a s e = take k (drop (nat s) a)"
proof -
  have "drop (min (nat s) (length a)) a = drop (nat s) a"
    by (simp add: min_def)
  then have "py_slice a s e
      = take (slice_bound (length a) e - slice_bound (length a) s) (drop (nat s) a)"
    using assms by (simp add: py_slice_def slice_bound_def Let_def)
  then show ?thesis by blast
qed

lemma py_slice_empty: "s < 0 \<Longrightarrow> e \<le> s \<Longrightarrow> py_slice a s e = []"
  by (simp add: py_slice_def slice_bound_def Let_def)

lemma zip_py_slice_subset:
  assumes "0 \<le> s \<or> e \<le> s"
  shows "set (zip (py_slice a s e) (py_slice c s e)) \<subseteq> set (zip a c)"
proof (cases "0 \<le> s")
  case True
  obtain i where i: "py_slice a s e = take i (drop (nat s) a)"
    using py_slice_nonneg [OF True] by blast
  obtain j where j: "py_slice c s e = take j (drop (nat s) c)"
    using py_slice_nonneg [OF True] by blast
  have "set (zip (py_slice a s e) (py_slice c s e)) \<subseteq> set (zip (drop (nat s) a) (drop (nat s) c))"
    unfolding i j by (rule zip_take_subset)
  also have "\<dots> \<subseteq> set (zip a c)" by (rule zip_drop_subset)
  finally show ?thesis .
next
  case False
  then have "py_slice a s e = []" using assms by (simp add: py_slice_empty)
  then show ?thesis by simp
qed

lemma zip_fancy_index_subset:
  assumes "fancy_index a p = Inr a'" and "fancy_index c p = Inr c'"
  shows "set (zip a' c') \<subseteq> set (zip a c)"
proof -
  have pa: "\<forall>i\<in>set p. i < length a" and a': "a' = map (\<lambda>i. a ! i) p"
    using assms(1) by (auto simp add: fancy_index_def list_all_iff split: if_splits)
  have pc: "\<forall>i\<in>set p. i < length c" and c': "c' = map (\<lambda>i. c ! i) p"
    using assms(2) by (auto simp add: fancy_index_def list_all_iff split: if_splits)
  have "zip (map f p) (map g p) = map (\<lambda>i. (f i, g i)) p" for f :: "nat \<Rightarrow> 'a" and g :: "nat \<Rightarrow> 'b"
    by (induction p) simp_all
  then have "zip a' c' = map (\<lambda>i. (a ! i, c ! i)) p"
    unfolding a' c' by simp
  moreover have "(a ! i, c ! i) \<in> set (zip a c)" if "i \<in> set p" for i
    using that pa pc by (auto simp add: set_zip)
  ultimately show ?thesis by auto
qed

lemma length_py_slice: "length a = length c \<Longrightarrow> length (py_slice a s e) = length (py_slice c s e)"
  by (simp add: py_slice_def Let_def)

lemma next_batch_paired:
  assumes inv: "paired x0 y0 it" and run: "next_batch p it = Inr ((bx, by), it')"
  shows "paired x0 y0 it' \<and> (\<exists>l. by = Some l \<and> set (zip bx l) \<subseteq> set (zip x0 y0))"
proof -
  from inv obtain l where l: "self_y it = Some l" and lo: "\<not> label_off it"
    and sub: "set (zip (self_x it) l) \<subseteq> set (zip x0 y0)"
    and sign: "0 \<le> pointer it \<or> batch_size it \<le> 0"
    by (auto simp add: paired_def split: option.splits)
  show ?thesis
  proof (cases "pointer it + batch_size it > num_examples it")
    case False
    have w: "0 \<le> pointer it \<or> pointer it + batch_size it \<le> pointer it"
      using sign by auto
    have r: "bx = py_slice (self_x it) (pointer it) (pointer it + batch_size it)"
      "by = Some (py_slice l (pointer it) (pointer it + batch_size it))"
      "it' = it\<lparr>pointer := pointer it + batch_size it\<rparr>"
      using run False l lo by (simp_all add: next_batch_def Let_def)
    have "paired x0 y0 it'"
      using r(3) l lo sub sign by (auto simp add: paired_def)
    moreover have "set (zip bx (py_slice l (pointer it) (pointer it + batch_size it)))
                     \<subseteq> set (zip x0 y0)"
      using zip_py_slice_subset [OF w, of "self_x it" l] sub r(1) by blast
    ultimately show ?thesis using r(2) by simp
  next
    case True
    from run True l lo obtain x' y' where fx: "fancy_index (self_x it) p = Inr x'"
      and fy: "fancy_index l p = Inr y'"
      and r: "bx = py_slice x' 0 (batch_size it)" "by = Some (py_slice y' 0 (batch_size it))"
        "it' = it\<lparr>self_x := x', self_y := Some y', pointer := batch_size it\<rparr>"
      by (auto simp add: next_batch_def reshuffle_def Let_def split: sum.splits)
    have s1: "set (zip x' y') \<subseteq> set (zip x0 y0)"
      using zip_fancy_index_subset [OF fx fy] sub by blast
    have "paired x0 y0 it'"
      using r(3) lo s1 by (auto simp add: paired_def)
    moreover have "set (zip bx (py_slice y' 0 (batch_size it))) \<subseteq> set (zip x0 y0)"
      using zip_py_slice_subset [of 0 "batch_size it" x' y'] s1 r(1) by blast
    ultimately show ?thesis using r(2) by simp
  qed
qed

lemma next_batches_paired:
  assumes "paired x0 y0 it" and "next_batches draw k it = Inr (bs, it')"
  shows "\<forall>batch\<in>set bs. \<exists>l. snd batch = Some l \<and> set (zip (fst batch) l) \<subseteq> set (zip x0 y0)"
  using assms
proof (induction k arbitrary: draw it bs)
  case 0
  then show ?case by simp
next
  case (Suc k)
  from Suc.prems(2) obtain b it1 bs1 where s1: "next_batch (draw 0) it = Inr (b, it1)"
    and s2: "next_batches (\<lambda>j. draw (Suc j)) k it1 = Inr (bs1, it')" and bs: "bs = b # bs1"
    by (auto split: sum.splits prod.splits)
  obtain bx "by" where b: "b = (bx, by)" by (cases b)
  note step = next_batch_paired [OF Suc.prems(1) s1 [unfolded b]]
  have "\<forall>batch\<in>set bs1. \<exists>l. snd batch = Some l \<and> set (zip (fst batch) l) \<subseteq> set (zip x0 y0)"
    using Suc.IH [OF _ s2] step by blast
  then show ?case using step bs b by auto
qed


lemma next_batch_same_length:
  assumes inv: "same_length it" and p: "shuffled_arange (num_examples it) p"
  shows "\<exists>bx l it'. next_batch p it = Inr ((bx, Some l), it') \<and> length l = length bx
           \<and> same_length it' \<and> num_examples it' = num_examples it"
proof -
  from inv obtain l0 where l0: "self_y it = Some l0" and lo: "\<not> label_off it"
    and n: "num_examples it = int (length (self_x it))"
    and ll: "length l0 = length (self_x it)"
    by (auto simp add: same_length_def split: option.splits)
  show ?thesis
  proof (cases "pointer it + batch_size it > num_examples it")
    case False
    have "next_batch p it =
        Inr ((py_slice (self_x it) (pointer it) (pointer it + batch_size it),
              Some (py_slice l0 (pointer it) (pointer it + batch_size it))),
             it\<lparr>pointer := pointer it + batch_size it\<rparr>)"
      using False l0 lo by (simp add: next_batch_def Let_def)
    moreover have "same_length (it\<lparr>pointer := pointer it + batch_size it\<rparr>)"
      using l0 lo n ll by (simp add: same_length_def)
    ultimately show ?thesis using length_py_slice [OF ll] by simp
  next
    case True
    let ?x' = "map (\<lambda>i. self_x it ! i) p" and ?y' = "map (\<lambda>i. l0 ! i) p"
    have fx: "fancy_index (self_x it) p = Inr ?x'"
      using p n by (simp add: fancy_index_shuffled)
    have fy: "fancy_index l0 p = Inr ?y'"
      using p n ll by (simp add: fancy_index_shuffled)
    have lp: "int (length p) = num_examples it"
      using shuffled_arange_set(2) [OF p] n by simp
    have "next_batch p it =
        Inr ((py_slice ?x' 0 (batch_size it), Some (py_slice ?y' 0 (batch_size it))),
             it\<lparr>self_x := ?x', self_y := Some ?y', pointer := batch_size it\<rparr>)"
      using True l0 lo fx fy by (simp add: next_batch_def reshuffle_def Let_def)
    moreover have "same_length (it\<lparr>self_x := ?x', self_y := Some ?y', pointer := batch_size it\<rparr>)"
      using lo lp by (simp add: same_length_def)
    moreover have "length (py_slice ?y' 0 (batch_size it)) = length (py_slice ?x' 0 (batch_size it))"
      by (rule length_py_slice) simp
    ultimately show ?thesis by simp
  qed
qed

lemma next_batches_same_length:
  assumes "same_length it" and "\<forall>j. shuffled_arange (num_examples it) (draw j)"
  shows "\<exists>bs it'. next_batches draw k it = Inr (bs, it') \<and> length bs = k
           \<and> (\<forall>batch\<in>set bs. \<exists>l. snd batch = Some l \<and> length l = length (fst batch))"
  using assms
proof (induction k arbitrary: draw it)
  case 0
  then show ?case by simp
next
  case (Suc k)
  from next_batch_same_length [OF Suc.prems(1), of "draw 0"] Suc.prems(2)
  obtain bx l it1 where s1: "next_batch (draw 0) it = Inr ((bx, Some l), it1)"
    and e1: "length l = length bx" and i1: "same_length it1"
    and n1: "num_examples it1 = num_examples it"
    by blast
  have "\<forall>j. shuffled_arange (num_examples it1) (draw (Suc j))"
    using Suc.prems(2) n1 by simp
  from Suc.IH [OF i1 this]
  obtain bs it2 where s2: "next_batches (\<lambda>j. draw (Suc j)) k it1 = Inr (bs, it2)"
    and l2: "length bs = k"
    and r2: "\<forall>batch\<in>set bs. \<exists>l. snd batch = Some l \<and> length l = length (fst batch)"
    by blast
  have "next_batches draw (Suc k) it = Inr ((bx, Some l) # bs, it2)"
    using s1 s2 by simp
  then show ?case using l2 r2 e1 by auto
qed

lemma DataIterator_init_paired:
  assumes "DataIterator_init x y b False = Inr it0"
  shows "paired x y it0" and "num_examples it0 = int (length x)"
    and "length y = length x \<Longrightarrow> same_length it0"
  using assms
  by (auto simp add: DataIterator_init_def Let_def paired_def same_length_def split: if_splits)

text \<open>
  Claim C3. For an iterator built with labels and any number \<open>k\<close> of calls of
  \<^verbatim>\<open>next_batch\<close>, every returned batch carries a label slice, and position by position
  the feature row and the label of the batch are the feature row and the label of one
  row \<open>j\<close> of the arrays given to the constructor, also after any number of shuffles.
  This holds for every batch size that the constructor accepts and whatever the lengths
  of the two arrays. When the arrays have the same length, no call raises and the two
  slices of every batch have the same length.
\<close>

theorem label_pairing:
  assumes init: "DataIterator_init x y b False = Inr it0"
    and draws: "\<forall>j. shuffled_arange (int (length x)) (draw j)"
  shows "(\<forall>bs it. next_batches draw k it0 = Inr (bs, it) \<longrightarrow>
            (\<forall>batch\<in>set bs. \<exists>l. snd batch = Some l
               \<and> (\<forall>i. i < length (fst batch) \<and> i < length l \<longrightarrow>
                     (\<exists>j. j < length x \<and> j < length y
                          \<and> fst batch ! i = x ! j \<and> l ! i = y ! j))))
       \<and> (length y = length x \<longrightarrow>
            (\<exists>bs it. next_batches draw k it0 = Inr (bs, it) \<and> length bs = k
               \<and> (\<forall>batch\<in>set bs. \<exists>l. snd batch = Some l \<and> length l = length (fst batch))))"
proof -
  note i0 = DataIterator_init_paired [OF init]
  have pairs: "\<exists>l. snd batch = Some l
               \<and> (\<forall>i. i < length (fst batch) \<and> i < length l \<longrightarrow>
                     (\<exists>j. j < length x \<and> j < length y
                          \<and> fst batch ! i = x ! j \<and> l ! i = y ! j))"
    if run: "next_batches draw k it0 = Inr (bs, it)" and mem: "batch \<in> set bs"
    for bs it batch
  proof -
    from next_batches_paired [OF i0(1) run] mem
    obtain l where l: "snd batch = Some l" and sub: "set (zip (fst batch) l) \<subseteq> set (zip x y)"
      by blast
    have "\<exists>j. j < length x \<and> j < length y \<and> fst batch ! i = x ! j \<and> l ! i = y ! j"
      if "i < length (fst batch)" and "i < length l" for i
    proof -
      have "(fst batch ! i, l ! i) \<in> set (zip (fst batch) l)"
        using that by (auto simp add: set_zip)
      then have "(fst batch ! i, l ! i) \<in> set (zip x y)" using sub by blast
      then show ?thesis by (auto simp add: set_zip)
    qed
    then show ?thesis using l by blast
  qed
  have total: "\<exists>bs it. next_batches draw k it0 = Inr (bs, it) \<and> length bs = k
               \<and> (\<forall>batch\<in>set bs. \<exists>l. snd batch = Some l \<and> length l = length (fst batch))"
    if "length y = length x"
  proof -
    have "\<forall>j. shuffled_arange (num_examples it0) (draw j)" using draws i0(2) by simp
    then show ?thesis using next_batches_same_length [OF i0(3) [OF that]] by blast
  qed
  show ?thesis using pairs total by blast
qed

theorem label_pairing_witness:
  "DataIterator_init [10, 20, 30 :: nat] [True, False, True] 2 False
     = Inr \<lparr>self_x = [10, 20, 30], label_off = False, self_y = Some [True, False, True],
            batch_size = 2, num_examples = 3, num_batches = 1, pointer = 0\<rparr>
   \<and> (\<forall>j::nat. shuffled_arange (int (length [10, 20, 30 :: nat])) [2, 0, 1])
   \<and> next_batches (\<lambda>j. [2, 0, 1]) 2
        \<lparr>self_x = [10, 20, 30 :: nat], label_off = False, self_y = Some [True, False, True],
         batch_size = 2, num_examples = 3, num_batches = 1, pointer = 0\<rparr>
      = Inr ([([10, 20], Some [True, False]), ([30, 10], Some [True, True])],
          \<lparr>self_x = [30, 10, 20], label_off = False, self_y = Some [True, True, False],
           batch_size = 2, num_examples = 3, num_batches = 1, pointer = 2\<rparr>)
   \<and> (\<exists>j. j < length [10, 20, 30 :: nat] \<and> j < length [True, False, True]
          \<and> [30, 10] ! 0 = [10, 20, 30 :: nat] ! j \<and> [True, True] ! 0 = [True, False, True] ! j)
   \<and> (\<exists>j. j < length [10, 20, 30 :: nat] \<and> j < length [True, False, True]
          \<and> [30, 10] ! 1 = [10, 20, 30 :: nat] ! j \<and> [True, True] ! 1 = [True, False, True] ! j)"
proof -
  let ?x = "[10, 20, 30 :: nat]" and ?y = "[True, False, True]"
  let ?it0 = "\<lparr>self_x = ?x, label_off = False, self_y = Some ?y,
            batch_size = 2, num_examples = 3, num_batches = 1, pointer = 0\<rparr>"
  have h1: "DataIterator_init ?x ?y 2 False = Inr ?it0"
    by (simp add: DataIterator_init_def)
  have sh: "shuffled_arange 3 [2, 0, 1]" by code_simp
  have h2: "\<forall>j::nat. shuffled_arange (int (length ?x)) ((\<lambda>j. [2, 0, 1]) j)"
    using sh by simp
  have run: "next_batches (\<lambda>j. [2, 0, 1]) 2 ?it0
      = Inr ([([10, 20], Some [True, False]), ([30, 10], Some [True, True])],
          \<lparr>self_x = [30, 10, 20], label_off = False, self_y = Some [True, True, False],
           batch_size = 2, num_examples = 3, num_batches = 1, pointer = 2\<rparr>)"
    by (simp add: numeral_2_eq_2 next_batch_def reshuffle_def fancy_index_def py_slice_def
        slice_bound_def Let_def)
  from label_pairing [OF h1 h2, of 2] run
  have "\<forall>batch\<in>set [([10, 20], Some [True, False]), ([30, 10 :: nat], Some [True, True])].
          \<exists>l. snd batch = Some l
               \<and> (\<forall>i. i < length (fst batch) \<and> i < length l \<longrightarrow>
                     (\<exists>j. j < length ?x \<and> j < length ?y
                          \<and> fst batch ! i = ?x ! j \<and> l ! i = ?y ! j))"
    by blast
  then have a: "\<forall>i. i < length [30, 10 :: nat] \<and> i < length [True, True] \<longrightarrow>
          (\<exists>j. j < length ?x \<and> j < length ?y
               \<and> [30, 10] ! i = ?x ! j \<and> [True, True] ! i = ?y ! j)"
    by simp
  have "0 < length [30, 10 :: nat] \<and> 0 < length [True, True]"
    and "1 < length [30, 10 :: nat] \<and> 1 < length [True, True]"
    by simp_all
  then have "\<exists>j. j < length ?x \<and> j < length ?y
               \<and> [30, 10] ! 0 = ?x ! j \<and> [True, True] ! 0 = ?y ! j"
    and "\<exists>j. j < length ?x \<and> j < length ?y
               \<and> [30, 10] ! 1 = ?x ! j \<and> [True, True] ! 1 = ?y ! j"
    using a by blast+
  then show ?thesis using h1 h2 run by blast
qed

section \<open>Properties of the losses\<close>

lemma sum_squares_half:
  "(\<Sum>v\<leftarrow>map2 (\<lambda>p d. p - d) (replicate 16 (1 / 2)) (replicate 16 c). v\<^sup>2)
     = 16 * (1 / 2 - c)\<^sup>2" for c :: real
  by (simp add: zip_replicate sum_list_replicate)

text \<open>
  Claim C6. The claim takes the generator loss and the two terms of the discriminator
  loss to be mean-squared deviations of the discriminator's outputs from their targets.
  \<open>mse_loss\<close> takes the square root of the sum of the squared deviations and divides it
  by the batch size. For sixteen outputs of \<open>1/2\<close> and a batch size of \<open>16\<close> the generator
  loss and the discriminator loss are \<open>1/8\<close>, and the mean-squared deviations are \<open>1/4\<close>.
  All the numbers involved are binary fractions, exact in \<^verbatim>\<open>float32\<close>.
\<close>

theorem mse_loss_is_not_mean_squared:
  "g_loss 16 (replicate 16 (1 / 2)) = 1 / 8
   \<and> mean_squared_deviation (replicate 16 (1 / 2)) (ones_like (replicate 16 (1 / 2))) = 1 / 4
   \<and> d_loss 16 (replicate 16 (1 / 2)) (replicate 16 (1 / 2)) = 1 / 8
   \<and> (mean_squared_deviation (replicate 16 (1 / 2)) (ones_like (replicate 16 (1 / 2)))
        + mean_squared_deviation (replicate 16 (1 / 2)) (zeros_like (replicate 16 (1 / 2)))) / 2
       = 1 / 4"
proof -
  have s1: "(\<Sum>v\<leftarrow>map2 (\<lambda>p d. p - d) (replicate 16 (1 / 2)) (replicate 16 1). v\<^sup>2) = (4::real)"
    unfolding sum_squares_half by (simp add: power2_eq_square)
  have s0: "(\<Sum>v\<leftarrow>map2 (\<lambda>p d. p - d) (replicate 16 (1 / 2)) (replicate 16 0). v\<^sup>2) = (4::real)"
    unfolding sum_squares_half by (simp add: power2_eq_square)
  have o: "ones_like (replicate 16 (1 / 2)) = replicate 16 1"
    and z: "zeros_like (replicate 16 (1 / 2)) = replicate 16 0"
    by (simp_all add: ones_like_def zeros_like_def)
  have m1: "mse_loss 16 (replicate 16 (1 / 2)) (replicate 16 1) = 1 / 8"
    unfolding mse_loss_def l2_loss_def s1 by simp
  have m0: "mse_loss 16 (replicate 16 (1 / 2)) (replicate 16 0) = 1 / 8"
    unfolding mse_loss_def l2_loss_def s0 by simp
  have d1: "mean_squared_deviation (replicate 16 (1 / 2)) (replicate 16 1) = 1 / 4"
    unfolding mean_squared_deviation_def s1 by simp
  have d0: "mean_squared_deviation (replicate 16 (1 / 2)) (replicate 16 0) = 1 / 4"
    unfolding mean_squared_deviation_def s0 by simp
  show ?thesis
    unfolding g_loss_def d_loss_def d_real_loss_def d_fake_loss_def o z m1 m0 d1 d0 by simp
qed

section \<open>Properties of the generator\<close>

text \<open>
  Claim C7. For every input \<open>z\<close> and every value of \<open>reuse\<close>, the generator returns its
  input unchanged: it is the identity function.
\<close>

theorem generator_identity: "generator z reuse = z"
  by (simp add: generator_def)

end
